theory Spec2Isabelle
  imports Main
begin

section \<open>The date-time decoder of the datos client\<close>

text \<open>
  The decoder is \<open>Datetime.UnmarshalJSON\<close> with its grammar steps \<open>expectChars\<close>,
  \<open>skipChars\<close>, \<open>skipSpaces\<close>, \<open>readChars\<close> and \<open>readInt\<close>. It reads the raw bytes
  of a JSON string through a \<open>bufio.Reader\<close>, rune by rune.

  A Go \<open>string\<close> and a \<open>[]byte\<close> are byte sequences: both are a \<open>string\<close> here
  (a \<open>char\<close> is one byte). A \<open>rune\<close> is a code point; the reader only ever yields
  code points from 0 to 0x10FFFF, so a rune is a \<open>nat\<close>.
\<close>

type_synonym rune = nat

subsection \<open>Errors\<close>

text \<open>
  Every error value the decoder can return. \<open>EOF\<close> is \<open>io.EOF\<close>,
  \<open>ErrInvalidUnreadRune\<close> is \<open>bufio.ErrInvalidUnreadRune\<close>, \<open>ErrSyntax s\<close> and
  \<open>ErrRange s\<close> are the \<open>*strconv.NumError\<close> of \<open>strconv.Atoi\<close> on the text \<open>s\<close>.
  The other three are the \<open>fmt.Errorf\<close> calls of the decoder, each constructor holding
  the arguments of its format string:
  \<open>Expecting expected got\<close> is \<open>"expecting: %s, got: %s"\<close>,
  \<open>ParsingDate raw err\<close> is \<open>"error parsing date %q: %s"\<close> and
  \<open>InvalidMonth mo\<close> is \<open>"invalid month: %s"\<close>.
\<close>

datatype error =
    EOF
  | ErrInvalidUnreadRune
  | ErrSyntax string
  | ErrRange string
  | Expecting string string
  | ParsingDate string error
  | InvalidMonth string

subsection \<open>UTF-8, as package \<open>unicode/utf8\<close> decodes and encodes it\<close>

definition RuneError :: rune where
  "RuneError = 0xFFFD"

definition cont_byte :: "nat \<Rightarrow> bool" where
  "cont_byte b \<longleftrightarrow> 0x80 \<le> b \<and> b \<le> 0xBF"

text \<open>
  \<open>utf8.DecodeRune\<close>: the first rune of a byte sequence and the number of bytes it takes.
  An invalid or incomplete encoding is \<open>RuneError\<close> of width 1; the empty sequence is
  \<open>RuneError\<close> of width 0. The second byte of a three- or four-byte form is restricted
  by the first (no overlong forms, no surrogates, nothing above 0x10FFFF).
\<close>

definition accept_lo :: "nat \<Rightarrow> nat" where
  "accept_lo p0 = (if p0 = 0xE0 then 0xA0 else if p0 = 0xF0 then 0x90 else 0x80)"

definition accept_hi :: "nat \<Rightarrow> nat" where
  "accept_hi p0 = (if p0 = 0xED then 0x9F else if p0 = 0xF4 then 0x8F else 0xBF)"

definition rune_width :: "nat \<Rightarrow> nat" where
  "rune_width p0 = (if p0 < 0xE0 then 2 else if p0 < 0xF0 then 3 else 4)"

fun DecodeRune :: "string \<Rightarrow> rune \<times> nat" where
  "DecodeRune [] = (RuneError, 0)"
| "DecodeRune (c0 # p) =
     (let p0 = (of_char c0 :: nat) in
      if p0 < 0x80 then (p0, 1)
      else if p0 < 0xC2 \<or> 0xF4 < p0 then (RuneError, 1)
      else if length (c0 # p) < rune_width p0 then (RuneError, 1)
      else
        (let b1 = (of_char (p ! 0) :: nat) in
         if b1 < accept_lo p0 \<or> accept_hi p0 < b1 then (RuneError, 1)
         else if rune_width p0 \<le> 2 then ((p0 mod 0x20) * 0x40 + b1 mod 0x40, 2)
         else
           (let b2 = (of_char (p ! 1) :: nat) in
            if \<not> cont_byte b2 then (RuneError, 1)
            else if rune_width p0 \<le> 3
              then ((p0 mod 0x10) * 0x1000 + (b1 mod 0x40) * 0x40 + b2 mod 0x40, 3)
            else
              (let b3 = (of_char (p ! 2) :: nat) in
               if \<not> cont_byte b3 then (RuneError, 1)
               else ((p0 mod 8) * 0x40000 + (b1 mod 0x40) * 0x1000 + (b2 mod 0x40) * 0x40
                       + b3 mod 0x40, 4)))))"

text \<open>
  \<open>utf8.AppendRune\<close>: the encoding of one rune. A surrogate or a value above 0x10FFFF
  is encoded as \<open>RuneError\<close>.
\<close>

definition EncodeRune :: "rune \<Rightarrow> string" where
  "EncodeRune r =
     (if r \<le> 0x7F then [char_of r]
      else if r \<le> 0x7FF then [char_of (0xC0 + r div 0x40), char_of (0x80 + r mod 0x40)]
      else if 0x10FFFF < r \<or> (0xD800 \<le> r \<and> r \<le> 0xDFFF)
        then [char_of (0xEF::nat), char_of (0xBF::nat), char_of (0xBD::nat)]
      else if r \<le> 0xFFFF
        then [char_of (0xE0 + r div 0x1000), char_of (0x80 + r div 0x40 mod 0x40),
              char_of (0x80 + r mod 0x40)]
      else [char_of (0xF0 + r div 0x40000), char_of (0x80 + r div 0x1000 mod 0x40),
            char_of (0x80 + r div 0x40 mod 0x40), char_of (0x80 + r mod 0x40)])"

text \<open>The conversion \<open>string(runes)\<close> of a rune slice.\<close>

definition string_of_runes :: "rune list \<Rightarrow> string" where
  "string_of_runes rs = concat (map EncodeRune rs)"

text \<open>\<open>utf8.RuneCountInString\<close>: every decoding step, also an invalid byte, counts one.\<close>

function RuneCountInString :: "string \<Rightarrow> nat" where
  "RuneCountInString s =
     (if s = [] then 0 else 1 + RuneCountInString (drop (snd (DecodeRune s)) s))"
  by pat_completeness auto

lemma DecodeRune_size_pos: "s \<noteq> [] \<Longrightarrow> 0 < snd (DecodeRune s)"
  by (cases s) (simp_all add: Let_def)

lemma DecodeRune_size_le: "snd (DecodeRune s) \<le> length s"
proof (cases s)
  case Nil
  then show ?thesis by simp
next
  case (Cons c0 p)
  have "rune_width (of_char c0) = 2 \<or> rune_width (of_char c0) = 3 \<or> rune_width (of_char c0) = 4"
    by (simp add: rune_width_def)
  then show ?thesis
    unfolding Cons by (cases p) (auto simp add: Let_def)
qed

termination RuneCountInString
  by (relation "measure length") (simp_all add: DecodeRune_size_pos)

declare RuneCountInString.simps [simp del]

subsection \<open>The reader\<close>

text \<open>
  \<open>bufio.NewReader(bytes.NewReader(b))\<close>: the bytes \<open>b\<close>, the position of the next unread
  byte, and \<open>lastRuneSize\<close>, the width of the rune the last operation read, or \<open>-1\<close>
  when the last operation was not a successful \<open>ReadRune\<close>. A \<open>bytes.Reader\<close> has no
  error but \<open>io.EOF\<close>.
\<close>

record Reader =
  rbuf :: string
  rpos :: nat
  lastRuneSize :: int

definition NewReader :: "string \<Rightarrow> Reader" where
  "NewReader b = \<lparr>rbuf = b, rpos = 0, lastRuneSize = -1\<rparr>"

text \<open>
  \<open>ReadRune\<close> returns the rune, its width and the error, and the reader it leaves.
  At the end of the input it returns \<open>(0, 0, io.EOF)\<close>.
\<close>

definition ReadRune :: "Reader \<Rightarrow> (rune \<times> nat \<times> error option) \<times> Reader" where
  "ReadRune r =
     (if length (rbuf r) \<le> rpos r then ((0, 0, Some EOF), r\<lparr>lastRuneSize := -1\<rparr>)
      else
        (case DecodeRune (drop (rpos r) (rbuf r)) of
           (ru, sz) \<Rightarrow> ((ru, sz, None), r\<lparr>rpos := rpos r + sz, lastRuneSize := int sz\<rparr>)))"

text \<open>\<open>UnreadRune\<close> steps back over the rune that the last operation read, if it read one.\<close>

definition UnreadRune :: "Reader \<Rightarrow> error option \<times> Reader" where
  "UnreadRune r =
     (if lastRuneSize r < 0 \<or> int (rpos r) < lastRuneSize r then (Some ErrInvalidUnreadRune, r)
      else (None, r\<lparr>rpos := rpos r - nat (lastRuneSize r), lastRuneSize := -1\<rparr>))"

subsection \<open>\<open>unicode.IsSpace\<close>\<close>

text \<open>
  In Latin-1 the white space is tab, line feed, vertical tab, form feed, carriage return,
  space, U+0085 and U+00A0; above it, the code points of the Unicode property White_Space.
\<close>

definition IsSpace :: "rune \<Rightarrow> bool" where
  "IsSpace r \<longleftrightarrow>
     (if r \<le> 0xFF then r \<in> {0x09, 0x0A, 0x0B, 0x0C, 0x0D, 0x20, 0x85, 0xA0}
      else r = 0x1680 \<or> (0x2000 \<le> r \<and> r \<le> 0x200A) \<or> r = 0x2028 \<or> r = 0x2029
             \<or> r = 0x202F \<or> r = 0x205F \<or> r = 0x3000)"

subsection \<open>\<open>strconv.Atoi\<close>\<close>

text \<open>
  The digit loop of \<open>Atoi\<close>: \<open>ch -= '0'\<close> on a byte wraps around, so every byte that is
  not a decimal digit gives a value above 9 and ends the loop with a syntax error
  (\<open>None\<close> here).
\<close>

fun atoi_digits :: "string \<Rightarrow> int \<Rightarrow> int option" where
  "atoi_digits [] n = Some n"
| "atoi_digits (ch # s) n =
     (let d = ((of_char ch :: nat) + 256 - 48) mod 256 in
      if 9 < d then None else atoi_digits s (n * 10 + int d))"

text \<open>
  \<open>Atoi\<close> with a 64-bit \<open>int\<close>: an optional sign, then at least one decimal digit and
  nothing else, or the error is \<open>ErrSyntax\<close>; a value outside the range of \<open>int\<close> is
  \<open>ErrRange\<close>. The decoder calls it on two or four characters, at most 16 bytes, which
  Go converts on its fast path as here. On a text of 19 bytes or more Go reports the range
  error at the digit that overflows, before it looks at the bytes after it, where this
  function reports the syntax error of a later byte: the two agree on which texts are
  accepted and on their value.
\<close>

definition Atoi :: "string \<Rightarrow> error + int" where
  "Atoi s0 =
     (if s0 = [] then Inl (ErrSyntax s0)
      else
        (let s = (if hd s0 = CHR ''-'' \<or> hd s0 = CHR ''+'' then tl s0 else s0) in
         if s = [] then Inl (ErrSyntax s0)
         else
           (case atoi_digits s 0 of
              None \<Rightarrow> Inl (ErrSyntax s0)
            | Some n0 \<Rightarrow>
                (let n = (if hd s0 = CHR ''-'' then - n0 else n0) in
                 if n < - (2 ^ 63) \<or> 2 ^ 63 - 1 < n then Inl (ErrRange s0) else Inr n))))"

subsection \<open>\<open>time.Date\<close>\<close>

text \<open>
  A \<open>time.Time\<close> is an instant, as seconds since 1970-01-01T00:00:00 UTC and nanoseconds
  within the second, with a location. The decoder only uses \<open>time.UTC\<close>.
\<close>

datatype Location = UTC

record Time =
  unix :: int
  nsec :: int
  loc :: Location

text \<open>\<open>norm\<close> carries what \<open>lo\<close> has outside \<open>[0, base)\<close> into \<open>hi\<close>.\<close>

definition norm :: "int \<Rightarrow> int \<Rightarrow> int \<Rightarrow> int \<times> int" where
  "norm hi lo base = (hi + lo div base, lo mod base)"

definition isLeap :: "int \<Rightarrow> bool" where
  "isLeap year \<longleftrightarrow> year mod 4 = 0 \<and> (year mod 100 \<noteq> 0 \<or> year mod 400 = 0)"

text \<open>The days before the first of each month in a non-leap year.\<close>

definition daysBefore :: "int list" where
  "daysBefore = [0, 31, 59, 90, 120, 151, 181, 212, 243, 273, 304, 334, 365]"

text \<open>The days from 1970-01-01 to the first of January of a year (proleptic Gregorian).\<close>

definition daysSinceEpoch :: "int \<Rightarrow> int" where
  "daysSinceEpoch year =
     365 * (year - 1970) + ((year - 1) div 4 - (year - 1) div 100 + (year - 1) div 400) - 477"

text \<open>
  \<open>time.Date\<close> in UTC: the month overflows into the year, nanoseconds into seconds,
  seconds into minutes, minutes into hours, hours into days; the day of the month is
  added as it is, so a day outside the month moves the instant into a neighbouring month.
\<close>

definition Date :: "int \<Rightarrow> int \<Rightarrow> int \<Rightarrow> int \<Rightarrow> int \<Rightarrow> int \<Rightarrow> int \<Rightarrow> Location \<Rightarrow> Time" where
  "Date year0 month0 day0 hour0 min0 sec0 nsec0 l =
     (let (year, m) = norm year0 (month0 - 1) 12;
          month = m + 1;
          (sec1, nsec1) = norm sec0 nsec0 1000000000;
          (min1, sec2) = norm min0 sec1 60;
          (hour1, min2) = norm hour0 min1 60;
          (day1, hour2) = norm day0 hour1 24;
          d = daysSinceEpoch year + daysBefore ! nat (month - 1)
                + (if isLeap year \<and> 3 \<le> month then 1 else 0) + (day1 - 1)
      in \<lparr>unix = d * 86400 + (hour2 * 3600 + min2 * 60 + sec2), nsec = nsec1, loc = l\<rparr>)"

subsection \<open>The decoder\<close>

text \<open>\<open>type Datetime struct { time.Time }\<close>\<close>

record Datetime =
  Time :: Time

text \<open>The table \<open>months\<close>; a \<open>time.Month\<close> is an integer, January being 1.\<close>

definition months :: "string \<rightharpoonup> int" where
  "months = map_of
     [(''ene'', 1), (''feb'', 2), (''mar'', 3), (''abr'', 4), (''may'', 5), (''jun'', 6),
      (''jul'', 7), (''ago'', 8), (''sep'', 9), (''oct'', 10), (''nov'', 11), (''dic'', 12)]"

text \<open>
  A \<open>parseFunc\<close> is a \<open>func(*bufio.Reader) error\<close> that may write the variable its
  closure points to. Here it takes the reader and the state \<open>'st\<close> that holds the
  variable, and returns the error, the reader and the state; a pointer \<open>out\<close> into the
  state is the function that stores a value there.
\<close>

type_synonym 'st parseFunc = "Reader \<Rightarrow> 'st \<Rightarrow> error option \<times> Reader \<times> 'st"

text \<open>
  The loop of \<open>readChars\<close>, from index \<open>i\<close>. When the input ends at the last index,
  \<open>n - 1 = i\<close>, the loop goes on and \<open>runes[i]\<close> keeps the zero that \<open>make\<close> has put there.
\<close>

function readChars_loop :: "nat \<Rightarrow> nat \<Rightarrow> rune list \<Rightarrow> Reader \<Rightarrow> error option \<times> rune list \<times> Reader" where
  "readChars_loop n i runes r =
     (if i < n then
        (case ReadRune r of
           ((ru, sz, err), r') \<Rightarrow>
             if err \<noteq> None then
               (if err = Some EOF \<and> n - 1 = i then readChars_loop n (i + 1) runes r'
                else (err, runes, r'))
             else readChars_loop n (i + 1) (runes[i := ru]) r')
      else (None, runes, r))"
  by pat_completeness auto
termination
  by (relation "measure (\<lambda>(n, i, runes, r). n - i)") auto

declare readChars_loop.simps [simp del]

definition readChars :: "nat \<Rightarrow> (string \<Rightarrow> 'st \<Rightarrow> 'st) \<Rightarrow> 'st parseFunc" where
  "readChars n out r st =
     (case readChars_loop n 0 (replicate n 0) r of
        (Some err, runes, r') \<Rightarrow> (Some err, r', st)
      | (None, runes, r') \<Rightarrow> (None, r', out (string_of_runes runes) st))"

text \<open>The local variable \<open>str\<close>, \<open>result\<close> or \<open>out\<close> of a step is a state of its own.\<close>

definition readInt :: "nat \<Rightarrow> (int \<Rightarrow> 'st \<Rightarrow> 'st) \<Rightarrow> 'st parseFunc" where
  "readInt n out r st =
     (case readChars n (\<lambda>x _. x) r [] of
        (Some err, r', str) \<Rightarrow> (Some err, r', st)
      | (None, r', str) \<Rightarrow>
          (case Atoi str of
             Inl err \<Rightarrow> (Some err, r', st)
           | Inr v \<Rightarrow> (None, r', out v st)))"

definition expectChars :: "string \<Rightarrow> 'st parseFunc" where
  "expectChars expected r st =
     (let n = RuneCountInString expected in
      case readChars n (\<lambda>x _. x) r [] of
        (Some err, r', result) \<Rightarrow> (Some err, r', st)
      | (None, r', result) \<Rightarrow>
          if result \<noteq> expected then (Some (Expecting expected result), r', st)
          else (None, r', st))"

definition skipChars :: "nat \<Rightarrow> 'st parseFunc" where
  "skipChars n r st =
     (case readChars n (\<lambda>x _. x) r [] of (err, r', out) \<Rightarrow> (err, r', st))"

text \<open>
  The loop of \<open>skipSpaces\<close>. It ends: every rune read moves the reader forward, and the
  input is finite.
\<close>

function skipSpaces_loop :: "Reader \<Rightarrow> error option \<times> Reader" where
  "skipSpaces_loop r =
     (case ReadRune r of
        ((ru, sz, err), r') \<Rightarrow>
          if err \<noteq> None then (if err = Some EOF then (None, r') else (err, r'))
          else if \<not> IsSpace ru then UnreadRune r'
          else skipSpaces_loop r')"
  by pat_completeness auto

lemma ReadRune_advances:
  "ReadRune r = ((ru, sz, None), r') \<Longrightarrow>
     length (rbuf r') - rpos r' < length (rbuf r) - rpos r"
proof -
  assume a: "ReadRune r = ((ru, sz, None), r')"
  then have lt: "rpos r < length (rbuf r)"
    by (auto simp add: ReadRune_def split: if_splits)
  then have ne: "drop (rpos r) (rbuf r) \<noteq> []" by simp
  from a lt have r': "r' = r\<lparr>rpos := rpos r + snd (DecodeRune (drop (rpos r) (rbuf r))),
      lastRuneSize := int (snd (DecodeRune (drop (rpos r) (rbuf r))))\<rparr>"
    by (auto simp add: ReadRune_def split: if_splits prod.splits)
  from DecodeRune_size_pos [OF ne] lt show ?thesis by (simp add: r')
qed

termination skipSpaces_loop
  by (relation "measure (\<lambda>r. length (rbuf r) - rpos r)")
     (auto dest: ReadRune_advances [OF sym])

declare skipSpaces_loop.simps [simp del]

definition skipSpaces :: "'st parseFunc" where
  "skipSpaces r st = (case skipSpaces_loop r of (err, r') \<Rightarrow> (err, r', st))"

text \<open>The variables \<open>mo\<close>, \<open>day\<close>, \<open>y\<close>, \<open>h\<close>, \<open>m\<close>, \<open>s\<close> of \<open>UnmarshalJSON\<close>.\<close>

record vars =
  var_mo :: string
  var_day :: int
  var_y :: int
  var_h :: int
  var_m :: int
  var_s :: int

definition vars0 :: vars where
  "vars0 = \<lparr>var_mo = [], var_day = 0, var_y = 0, var_h = 0, var_m = 0, var_s = 0\<rparr>"

definition steps :: "vars parseFunc list" where
  "steps =
     [expectChars [CHR 0x22],
      skipChars 3,
      expectChars '','',
      skipSpaces,
      readInt 2 (\<lambda>n v. v\<lparr>var_day := n\<rparr>),
      skipSpaces,
      readChars 3 (\<lambda>x v. v\<lparr>var_mo := x\<rparr>),
      skipSpaces,
      readInt 4 (\<lambda>n v. v\<lparr>var_y := n\<rparr>),
      skipSpaces,
      readInt 2 (\<lambda>n v. v\<lparr>var_h := n\<rparr>),
      expectChars '':'',
      readInt 2 (\<lambda>n v. v\<lparr>var_m := n\<rparr>),
      expectChars '':'',
      readInt 2 (\<lambda>n v. v\<lparr>var_s := n\<rparr>),
      skipSpaces,
      expectChars ''GMT+0000'',
      expectChars [CHR 0x22]]"

text \<open>The loop over the steps: the first error ends it.\<close>

fun run_steps :: "('r \<Rightarrow> 'st \<Rightarrow> error option \<times> 'r \<times> 'st) list \<Rightarrow> 'r \<Rightarrow> 'st
                    \<Rightarrow> error option \<times> 'r \<times> 'st" where
  "run_steps [] r st = (None, r, st)"
| "run_steps (s # ss) r st =
     (case s r st of
        (Some err, r', st') \<Rightarrow> (Some err, r', st')
      | (None, r', st') \<Rightarrow> run_steps ss r' st')"

text \<open>
  \<open>UnmarshalJSON\<close> returns the error and the receiver: \<open>d.Time\<close> is assigned in the last
  statement only.
\<close>

definition UnmarshalJSON :: "Datetime \<Rightarrow> string \<Rightarrow> error option \<times> Datetime" where
  "UnmarshalJSON d b =
     (case run_steps steps (NewReader b) vars0 of
        (Some err, r, v) \<Rightarrow> (Some (ParsingDate b err), d)
      | (None, r, v) \<Rightarrow>
          (case months (var_mo v) of
             None \<Rightarrow> (Some (InvalidMonth (var_mo v)), d)
           | Some month \<Rightarrow>
               (None, d\<lparr>Time := Date (var_y v) month (var_day v) (var_h v) (var_m v) (var_s v)
                                       0 UTC\<rparr>)))"

section \<open>The steps on the runes that are still to be read\<close>

text \<open>
  What a step returns depends on the reader only through the runes it has still to yield:
  \<open>runes_of\<close> decodes a byte sequence rune by rune, as repeated \<open>ReadRune\<close> does, and
  \<open>pending r\<close> is the decoding of what lies behind the position of \<open>r\<close>.
\<close>

function runes_of :: "string \<Rightarrow> rune list" where
  "runes_of s =
     (if s = [] then [] else fst (DecodeRune s) # runes_of (drop (snd (DecodeRune s)) s))"
  by pat_completeness auto
termination
  by (relation "measure length") (simp_all add: DecodeRune_size_pos)

declare runes_of.simps [simp del]

definition pending :: "Reader \<Rightarrow> rune list" where
  "pending r = runes_of (drop (rpos r) (rbuf r))"

lemma runes_of_Nil [simp]: "runes_of [] = []"
  by (simp add: runes_of.simps)

lemma runes_of_eq_Nil [simp]: "runes_of s = [] \<longleftrightarrow> s = []"
  by (subst runes_of.simps) simp

lemma pending_Nil_iff: "pending r = [] \<longleftrightarrow> length (rbuf r) \<le> rpos r"
  by (simp add: pending_def)

lemma ReadRune_at_end:
  "pending r = [] \<Longrightarrow> ReadRune r = ((0, 0, Some EOF), r\<lparr>lastRuneSize := -1\<rparr>)"
  by (simp add: pending_Nil_iff ReadRune_def)

lemma pending_at_end [simp]: "pending r = [] \<Longrightarrow> pending (r\<lparr>lastRuneSize := k\<rparr>) = []"
  by (simp add: pending_def)

lemma ReadRune_Cons:
  assumes "pending r = x # xs"
  shows "\<exists>sz r'. ReadRune r = ((x, sz, None), r') \<and> pending r' = xs
           \<and> (\<exists>r''. UnreadRune r' = (None, r'') \<and> pending r'' = x # xs)"
proof -
  let ?s = "drop (rpos r) (rbuf r)"
  from assms have ne: "?s \<noteq> []" by (auto simp add: pending_def)
  then have lt: "rpos r < length (rbuf r)" by simp
  obtain ru sz where d: "DecodeRune ?s = (ru, sz)" by (cases "DecodeRune ?s")
  from assms ne d have x: "x = ru" and xs: "xs = runes_of (drop sz ?s)"
    by (simp_all add: pending_def runes_of.simps [of ?s])
  from DecodeRune_size_pos [OF ne] d have pos: "0 < sz" by simp
  let ?r' = "r\<lparr>rpos := rpos r + sz, lastRuneSize := int sz\<rparr>"
  have rd: "ReadRune r = ((x, sz, None), ?r')"
    using lt d x by (simp add: ReadRune_def)
  have p': "pending ?r' = xs"
    by (simp add: pending_def xs add.commute)
  have un: "UnreadRune ?r' = (None, r\<lparr>lastRuneSize := -1\<rparr>)"
    using pos by (simp add: UnreadRune_def)
  have "pending (r\<lparr>lastRuneSize := -1\<rparr>) = x # xs"
    using assms by (simp add: pending_def)
  with rd p' un show ?thesis by blast
qed

lemma readChars_loop_done: "readChars_loop n n runes r = (None, runes, r)"
  by (subst readChars_loop.simps) simp

lemma readChars_loop_spec:
  "length pre = i \<Longrightarrow> i + k = n \<Longrightarrow>
   \<exists>r'. pending r' = drop k (pending r) \<and>
     readChars_loop n i (pre @ replicate k 0) r =
       (if k \<le> length (pending r) then (None, pre @ take k (pending r), r')
        else if Suc (length (pending r)) = k then (None, pre @ pending r @ [0], r')
        else (Some EOF, pre @ pending r @ replicate (k - length (pending r)) 0, r'))"
proof (induction k arbitrary: i pre r)
  case 0
  then show ?case by (simp add: readChars_loop_done)
next
  case (Suc k)
  then have lt: "i < n" by simp
  show ?case
  proof (cases "pending r")
    case Nil
    let ?r1 = "r\<lparr>lastRuneSize := -1\<rparr>"
    have rd: "ReadRune r = ((0, 0, Some EOF), ?r1)" using Nil by (rule ReadRune_at_end)
    have p1: "pending ?r1 = []" using Nil by simp
    show ?thesis
    proof (cases "k = 0")
      case True
      with Suc.prems have last: "n - 1 = i" by simp
      from Suc.prems True have "i + 1 = n" by simp
      then have "readChars_loop n (i + 1) (pre @ replicate (Suc k) 0) ?r1 = (None, pre @ [0], ?r1)"
        using True by (simp add: readChars_loop_done)
      then have "readChars_loop n i (pre @ replicate (Suc k) 0) r = (None, pre @ [0], ?r1)"
        using lt rd last by (simp add: readChars_loop.simps [of n i])
      with True Nil p1 show ?thesis by auto
    next
      case False
      with Suc.prems have notlast: "n - 1 \<noteq> i" by simp
      have "readChars_loop n i (pre @ replicate (Suc k) 0) r
              = (Some EOF, pre @ replicate (Suc k) 0, ?r1)"
        using lt rd notlast by (simp add: readChars_loop.simps [of n i])
      with False Nil p1 show ?thesis by auto
    qed
  next
    case (Cons x xs)
    from ReadRune_Cons [OF Cons] obtain sz r1
      where rd: "ReadRune r = ((x, sz, None), r1)" and p1: "pending r1 = xs" by blast
    have upd: "(pre @ replicate (Suc k) 0)[i := x] = (pre @ [x]) @ replicate k 0"
      using Suc.prems(1) by (simp add: list_update_append)
    have step: "readChars_loop n i (pre @ replicate (Suc k) 0) r
                  = readChars_loop n (i + 1) ((pre @ [x]) @ replicate k 0) r1"
      using lt rd upd by (simp add: readChars_loop.simps [of n i])
    from Suc.prems have "length (pre @ [x]) = i + 1" "i + 1 + k = n" by simp_all
    from Suc.IH [OF this, of r1] obtain r' where
      "pending r' = drop k (pending r1)" and
      "readChars_loop n (i + 1) ((pre @ [x]) @ replicate k 0) r1 =
         (if k \<le> length (pending r1) then (None, (pre @ [x]) @ take k (pending r1), r')
          else if Suc (length (pending r1)) = k then (None, (pre @ [x]) @ pending r1 @ [0], r')
          else (Some EOF, (pre @ [x]) @ pending r1 @ replicate (k - length (pending r1)) 0, r'))"
      by blast
    with step p1 Cons show ?thesis by auto
  qed
qed

lemma skipSpaces_loop_spec:
  "\<exists>r'. skipSpaces_loop r = (None, r') \<and> pending r' = dropWhile IsSpace (pending r)"
proof (induction "pending r" arbitrary: r)
  case Nil
  then have p: "pending r = []" by simp
  show ?case
    using ReadRune_at_end [OF p] p by (simp add: skipSpaces_loop.simps [of r])
next
  case (Cons x xs)
  then have p: "pending r = x # xs" by simp
  from ReadRune_Cons [OF p] obtain sz r1 r2
    where rd: "ReadRune r = ((x, sz, None), r1)" and p1: "pending r1 = xs"
      and un: "UnreadRune r1 = (None, r2)" and p2: "pending r2 = x # xs" by blast
  show ?case
  proof (cases "IsSpace x")
    case True
    from Cons.hyps(1) [of r1] p1 obtain r' where
      "skipSpaces_loop r1 = (None, r')" "pending r' = dropWhile IsSpace xs" by auto
    with True rd p show ?thesis by (simp add: skipSpaces_loop.simps [of r])
  next
    case False
    with rd un p p2 show ?thesis by (simp add: skipSpaces_loop.simps [of r])
  qed
qed

text \<open>
  Each step as a function on the pending runes, and the proof that the step on the reader
  does what this function says.
\<close>

type_synonym 'st runeFunc = "rune list \<Rightarrow> 'st \<Rightarrow> error option \<times> rune list \<times> 'st"

definition readChars_runes :: "nat \<Rightarrow> (string \<Rightarrow> 'st \<Rightarrow> 'st) \<Rightarrow> 'st runeFunc" where
  "readChars_runes n out rs st =
     (if n \<le> length rs then (None, drop n rs, out (string_of_runes (take n rs)) st)
      else if Suc (length rs) = n then (None, [], out (string_of_runes (rs @ [0])) st)
      else (Some EOF, [], st))"

definition readInt_runes :: "nat \<Rightarrow> (int \<Rightarrow> 'st \<Rightarrow> 'st) \<Rightarrow> 'st runeFunc" where
  "readInt_runes n out rs st =
     (case readChars_runes n (\<lambda>x _. x) rs [] of
        (Some err, rs', str) \<Rightarrow> (Some err, rs', st)
      | (None, rs', str) \<Rightarrow>
          (case Atoi str of
             Inl err \<Rightarrow> (Some err, rs', st)
           | Inr v \<Rightarrow> (None, rs', out v st)))"

definition expectChars_runes :: "string \<Rightarrow> 'st runeFunc" where
  "expectChars_runes expected rs st =
     (let n = RuneCountInString expected in
      case readChars_runes n (\<lambda>x _. x) rs [] of
        (Some err, rs', result) \<Rightarrow> (Some err, rs', st)
      | (None, rs', result) \<Rightarrow>
          if result \<noteq> expected then (Some (Expecting expected result), rs', st)
          else (None, rs', st))"

definition skipChars_runes :: "nat \<Rightarrow> 'st runeFunc" where
  "skipChars_runes n rs st =
     (case readChars_runes n (\<lambda>x _. x) rs [] of (err, rs', out) \<Rightarrow> (err, rs', st))"

definition skipSpaces_runes :: "'st runeFunc" where
  "skipSpaces_runes rs st = (None, dropWhile IsSpace rs, st)"

text \<open>
  \<open>refines f F\<close>: on every reader, \<open>f\<close> returns the error and the state that \<open>F\<close>
  returns on the pending runes, and leaves a reader whose pending runes are those \<open>F\<close> leaves.
\<close>

definition refines :: "'st parseFunc \<Rightarrow> 'st runeFunc \<Rightarrow> bool" where
  "refines f F \<longleftrightarrow>
     (\<forall>r st. \<exists>r'. pending r' = fst (snd (F (pending r) st)) \<and>
        f r st = (fst (F (pending r) st), r', snd (snd (F (pending r) st))))"

lemma refinesD:
  "refines f F \<Longrightarrow> F (pending r) st = (e, rs', st') \<Longrightarrow>
     \<exists>r'. pending r' = rs' \<and> f r st = (e, r', st')"
  unfolding refines_def by (metis fst_conv snd_conv)

lemma refinesI:
  "(\<And>r st. \<exists>r'. pending r' = fst (snd (F (pending r) st)) \<and>
        f r st = (fst (F (pending r) st), r', snd (snd (F (pending r) st)))) \<Longrightarrow> refines f F"
  unfolding refines_def by blast

lemma readChars_refines: "refines (readChars n out) (readChars_runes n out)"
proof (rule refinesI)
  fix r and st :: 'a
  from readChars_loop_spec [of "[]" 0 n n r] obtain r' where
    p: "pending r' = drop n (pending r)" and
    l: "readChars_loop n 0 (replicate n 0) r =
       (if n \<le> length (pending r) then (None, take n (pending r), r')
        else if Suc (length (pending r)) = n then (None, pending r @ [0], r')
        else (Some EOF, pending r @ replicate (n - length (pending r)) 0, r'))"
    by auto
  show "\<exists>r'. pending r' = fst (snd (readChars_runes n out (pending r) st)) \<and>
        readChars n out r st = (fst (readChars_runes n out (pending r) st), r',
          snd (snd (readChars_runes n out (pending r) st)))"
    using p l by (auto simp add: readChars_def readChars_runes_def)
qed

lemma readInt_refines: "refines (readInt n out) (readInt_runes n out)"
proof (rule refinesI)
  fix r and st :: 'a
  obtain e rs' str where F: "readChars_runes n (\<lambda>x _. x) (pending r) [] = (e, rs', str)"
    by (cases "readChars_runes n (\<lambda>x _. x) (pending r) ([]::string)")
  from refinesD [OF readChars_refines F] obtain r' where
    "pending r' = rs'" "readChars n (\<lambda>x _. x) r [] = (e, r', str)" by blast
  with F show "\<exists>r'. pending r' = fst (snd (readInt_runes n out (pending r) st)) \<and>
        readInt n out r st = (fst (readInt_runes n out (pending r) st), r',
          snd (snd (readInt_runes n out (pending r) st)))"
    by (auto simp add: readInt_def readInt_runes_def split: option.splits sum.splits)
qed

lemma expectChars_refines: "refines (expectChars expected) (expectChars_runes expected)"
proof (rule refinesI)
  fix r and st :: 'a
  let ?n = "RuneCountInString expected"
  obtain e rs' str where F: "readChars_runes ?n (\<lambda>x _. x) (pending r) [] = (e, rs', str)"
    by (cases "readChars_runes ?n (\<lambda>x _. x) (pending r) ([]::string)")
  from refinesD [OF readChars_refines F] obtain r' where
    "pending r' = rs'" "readChars ?n (\<lambda>x _. x) r [] = (e, r', str)" by blast
  with F show "\<exists>r'. pending r' = fst (snd (expectChars_runes expected (pending r) st)) \<and>
        expectChars expected r st = (fst (expectChars_runes expected (pending r) st), r',
          snd (snd (expectChars_runes expected (pending r) st)))"
    by (auto simp add: expectChars_def expectChars_runes_def Let_def split: option.splits)
qed

lemma skipChars_refines: "refines (skipChars n) (skipChars_runes n)"
proof (rule refinesI)
  fix r and st :: 'a
  obtain e rs' str where F: "readChars_runes n (\<lambda>x _. x) (pending r) [] = (e, rs', str)"
    by (cases "readChars_runes n (\<lambda>x _. x) (pending r) ([]::string)")
  from refinesD [OF readChars_refines F] obtain r' where
    "pending r' = rs'" "readChars n (\<lambda>x _. x) r [] = (e, r', str)" by blast
  with F show "\<exists>r'. pending r' = fst (snd (skipChars_runes n (pending r) st)) \<and>
        skipChars n r st = (fst (skipChars_runes n (pending r) st), r',
          snd (snd (skipChars_runes n (pending r) st)))"
    by (auto simp add: skipChars_def skipChars_runes_def)
qed

lemma skipSpaces_refines: "refines skipSpaces skipSpaces_runes"
proof (rule refinesI)
  fix r and st :: 'a
  from skipSpaces_loop_spec [of r]
  show "\<exists>r'. pending r' = fst (snd (skipSpaces_runes (pending r) st)) \<and>
        skipSpaces r st = (fst (skipSpaces_runes (pending r) st), r',
          snd (snd (skipSpaces_runes (pending r) st)))"
    by (auto simp add: skipSpaces_def skipSpaces_runes_def)
qed

lemma run_steps_refines:
  "list_all2 refines fs Fs \<Longrightarrow> refines (run_steps fs) (run_steps Fs)"
proof (induction fs Fs rule: list_all2_induct)
  case Nil
  show ?case by (rule refinesI) simp
next
  case (Cons f fs F Fs)
  show ?case
  proof (rule refinesI)
    fix r and st :: 'a
    obtain e rs1 st1 where F: "F (pending r) st = (e, rs1, st1)"
      by (cases "F (pending r) st")
    from refinesD [OF Cons.hyps(1) F] obtain r1 where
      p1: "pending r1 = rs1" and f: "f r st = (e, r1, st1)" by blast
    show "\<exists>r'. pending r' = fst (snd (run_steps (F # Fs) (pending r) st)) \<and>
        run_steps (f # fs) r st = (fst (run_steps (F # Fs) (pending r) st), r',
          snd (snd (run_steps (F # Fs) (pending r) st)))"
    proof (cases e)
      case None
      obtain e2 rs2 st2 where R: "run_steps Fs rs1 st1 = (e2, rs2, st2)"
        by (cases "run_steps Fs rs1 st1")
      from refinesD [OF Cons.IH, of r1 st1 e2 rs2 st2] R p1 obtain r2 where
        "pending r2 = rs2" "run_steps fs r1 st1 = (e2, r2, st2)" by auto
      with None F f R show ?thesis by simp
    next
      case (Some err)
      with F f p1 show ?thesis by simp
    qed
  qed
qed

definition steps_runes :: "vars runeFunc list" where
  "steps_runes =
     [expectChars_runes [CHR 0x22],
      skipChars_runes 3,
      expectChars_runes '','',
      skipSpaces_runes,
      readInt_runes 2 (\<lambda>n v. v\<lparr>var_day := n\<rparr>),
      skipSpaces_runes,
      readChars_runes 3 (\<lambda>x v. v\<lparr>var_mo := x\<rparr>),
      skipSpaces_runes,
      readInt_runes 4 (\<lambda>n v. v\<lparr>var_y := n\<rparr>),
      skipSpaces_runes,
      readInt_runes 2 (\<lambda>n v. v\<lparr>var_h := n\<rparr>),
      expectChars_runes '':'',
      readInt_runes 2 (\<lambda>n v. v\<lparr>var_m := n\<rparr>),
      expectChars_runes '':'',
      readInt_runes 2 (\<lambda>n v. v\<lparr>var_s := n\<rparr>),
      skipSpaces_runes,
      expectChars_runes ''GMT+0000'',
      expectChars_runes [CHR 0x22]]"

lemma steps_refine: "list_all2 refines steps steps_runes"
  unfolding steps_def steps_runes_def
  by (simp add: readChars_refines readInt_refines expectChars_refines skipChars_refines
        skipSpaces_refines)

lemma pending_NewReader [simp]: "pending (NewReader b) = runes_of b"
  by (simp add: pending_def NewReader_def)

lemma run_steps_runes:
  "run_steps steps_runes (runes_of b) vars0 = (e, rs, v) \<Longrightarrow>
     \<exists>r. pending r = rs \<and> run_steps steps (NewReader b) vars0 = (e, r, v)"
  using refinesD [OF run_steps_refines [OF steps_refine], of "NewReader b" vars0 e rs v]
  by simp

lemma UnmarshalJSON_runes:
  "UnmarshalJSON d b =
     (case run_steps steps_runes (runes_of b) vars0 of
        (Some err, rs, v) \<Rightarrow> (Some (ParsingDate b err), d)
      | (None, rs, v) \<Rightarrow>
          (case months (var_mo v) of
             None \<Rightarrow> (Some (InvalidMonth (var_mo v)), d)
           | Some month \<Rightarrow>
               (None, d\<lparr>Time := Date (var_y v) month (var_day v) (var_h v) (var_m v) (var_s v)
                                       0 UTC\<rparr>)))"
proof -
  obtain e rs v where R: "run_steps steps_runes (runes_of b) vars0 = (e, rs, v)"
    by (cases "run_steps steps_runes (runes_of b) vars0")
  from run_steps_runes [OF R] obtain r where
    "run_steps steps (NewReader b) vars0 = (e, r, v)" by blast
  with R show ?thesis by (cases e) (simp_all add: UnmarshalJSON_def)
qed

subsection \<open>Encoding and decoding are inverse on valid runes\<close>

text \<open>A valid rune is a Unicode scalar value: at most 0x10FFFF and not a surrogate.\<close>

definition valid_rune :: "rune \<Rightarrow> bool" where
  "valid_rune r \<longleftrightarrow> r \<le> 0x10FFFF \<and> \<not> (0xD800 \<le> r \<and> r \<le> 0xDFFF)"

lemma byte_of_nat: "n < 256 \<Longrightarrow> (of_char (char_of (n::nat)) :: nat) = n"
  by simp

lemma mod_above: "a < m \<Longrightarrow> (a + m * k) mod m = (a::nat)"
  by simp

lemma lead2: "a < 32 \<Longrightarrow> (192 + a) mod 32 = (a::nat)"
  using mod_above [of a 32 6] by (simp add: add.commute)

lemma lead3: "a < 16 \<Longrightarrow> (224 + a) mod 16 = (a::nat)"
  using mod_above [of a 16 14] by (simp add: add.commute)

lemma lead4: "a < 8 \<Longrightarrow> (240 + a) mod 8 = (a::nat)"
  using mod_above [of a 8 30] by (simp add: add.commute)

lemma cont6: "b < 64 \<Longrightarrow> (128 + b) mod 64 = (b::nat)"
  using mod_above [of b 64 2] by (simp add: add.commute)

lemma DecodeRune_Encode1:
  assumes "r \<le> 0x7F"
  shows "DecodeRune (EncodeRune r @ s) = (r, 1)"
  using assms by (simp add: EncodeRune_def Let_def)

lemma DecodeRune_bytes2:
  assumes "2 \<le> a" "a < 32" "b < 64"
  shows "DecodeRune (char_of (192 + a) # char_of (128 + b) # s) = (a * 64 + b, 2)"
proof -
  have b0: "(of_char (char_of (192 + a)) :: nat) = 192 + a"
    using assms by (intro byte_of_nat) simp
  have b1: "(of_char (char_of (128 + b)) :: nat) = 128 + b"
    using assms by (intro byte_of_nat) simp
  have w: "rune_width (192 + a) = 2" using assms by (simp add: rune_width_def)
  have nlo: "\<not> 128 + b < accept_lo (192 + a)" using assms by (simp add: accept_lo_def)
  have nhi: "\<not> accept_hi (192 + a) < 128 + b" using assms by (simp add: accept_hi_def)
  have l2: "(192 + a) mod 32 = a" using assms by (intro lead2) simp
  have m1: "(128 + b) mod 64 = b" using assms by (intro cont6) simp
  have p: "\<not> 192 + a < 128" "\<not> (192 + a < 194 \<or> 244 < 192 + a)" using assms by simp_all
  show ?thesis
    using p by (simp add: Let_def b0 b1 w nlo nhi l2 m1 del: of_char_of)
qed

lemma DecodeRune_Encode2:
  assumes "0x7F < r" "r \<le> 0x7FF"
  shows "DecodeRune (EncodeRune r @ s) = (r, 2)"
proof -
  have d: "2 \<le> r div 64" "r div 64 < 32" "r mod 64 < 64" using assms by auto
  have enc: "EncodeRune r @ s = char_of (192 + r div 64) # char_of (128 + r mod 64) # s"
    using assms by (simp add: EncodeRune_def)
  have "DecodeRune (EncodeRune r @ s) = (r div 64 * 64 + r mod 64, 2)"
    unfolding enc by (rule DecodeRune_bytes2 [OF d])
  then show ?thesis by (simp only: div_mult_mod_eq)
qed

lemma DecodeRune_bytes3:
  assumes "a < 16" "b < 64" "c < 64" "a = 0 \<longrightarrow> 32 \<le> b" "a = 13 \<longrightarrow> b < 32"
  shows "DecodeRune (char_of (224 + a) # char_of (128 + b) # char_of (128 + c) # s)
           = (a * 4096 + b * 64 + c, 3)"
proof -
  have b0: "(of_char (char_of (224 + a)) :: nat) = 224 + a"
    using assms by (intro byte_of_nat) simp
  have b1: "(of_char (char_of (128 + b)) :: nat) = 128 + b"
    using assms by (intro byte_of_nat) simp
  have b2: "(of_char (char_of (128 + c)) :: nat) = 128 + c"
    using assms by (intro byte_of_nat) simp
  have w: "rune_width (224 + a) = 3" using assms by (simp add: rune_width_def)
  have lo: "accept_lo (224 + a) \<le> 128 + b" using assms by (auto simp add: accept_lo_def)
  have hi: "128 + b \<le> accept_hi (224 + a)" using assms by (auto simp add: accept_hi_def)
  have c2: "cont_byte (128 + c)" using assms by (simp add: cont_byte_def)
  have l3: "(224 + a) mod 16 = a" using assms by (intro lead3) simp
  have m1: "(128 + b) mod 64 = b" using assms by (intro cont6) simp
  have m2: "(128 + c) mod 64 = c" using assms by (intro cont6) simp
  have p: "\<not> 224 + a < 128" "\<not> (224 + a < 194 \<or> 244 < 224 + a)" using assms by simp_all
  have nlo: "\<not> 128 + b < accept_lo (224 + a)" and nhi: "\<not> accept_hi (224 + a) < 128 + b"
    using lo hi by simp_all
  show ?thesis
    using p by (simp add: Let_def b0 b1 b2 w nlo nhi c2 l3 m1 m2 del: of_char_of)
qed

lemma DecodeRune_bytes4:
  assumes "a < 5" "b < 64" "c < 64" "e < 64" "a = 0 \<longrightarrow> 16 \<le> b" "a = 4 \<longrightarrow> b < 16"
  shows "DecodeRune (char_of (240 + a) # char_of (128 + b) # char_of (128 + c)
                       # char_of (128 + e) # s)
           = (a * 262144 + b * 4096 + c * 64 + e, 4)"
proof -
  have b0: "(of_char (char_of (240 + a)) :: nat) = 240 + a"
    using assms by (intro byte_of_nat) simp
  have b1: "(of_char (char_of (128 + b)) :: nat) = 128 + b"
    using assms by (intro byte_of_nat) simp
  have b2: "(of_char (char_of (128 + c)) :: nat) = 128 + c"
    using assms by (intro byte_of_nat) simp
  have b3: "(of_char (char_of (128 + e)) :: nat) = 128 + e"
    using assms by (intro byte_of_nat) simp
  have w: "rune_width (240 + a) = 4" by (simp add: rune_width_def)
  have lo: "accept_lo (240 + a) \<le> 128 + b" using assms by (auto simp add: accept_lo_def)
  have hi: "128 + b \<le> accept_hi (240 + a)" using assms by (auto simp add: accept_hi_def)
  have c2: "cont_byte (128 + c)" using assms by (simp add: cont_byte_def)
  have c3: "cont_byte (128 + e)" using assms by (simp add: cont_byte_def)
  have l4: "(240 + a) mod 8 = a" using assms by (intro lead4) simp
  have m1: "(128 + b) mod 64 = b" using assms by (intro cont6) simp
  have m2: "(128 + c) mod 64 = c" using assms by (intro cont6) simp
  have m3: "(128 + e) mod 64 = e" using assms by (intro cont6) simp
  have p: "\<not> 240 + a < 128" "\<not> (240 + a < 194 \<or> 244 < 240 + a)" using assms by simp_all
  have nlo: "\<not> 128 + b < accept_lo (240 + a)" and nhi: "\<not> accept_hi (240 + a) < 128 + b"
    using lo hi by simp_all
  show ?thesis
    using p by (simp add: Let_def b0 b1 b2 b3 w nlo nhi c2 c3 l4 m1 m2 m3 del: of_char_of)
qed

lemma split3: "(r::nat) = r div 4096 * 4096 + r div 64 mod 64 * 64 + r mod 64"
proof -
  have "r div 64 = r div 64 div 64 * 64 + r div 64 mod 64" by simp
  also have "r div 64 div 64 = r div 4096" by (simp add: div_mult2_eq [symmetric])
  finally have "r div 64 * 64 = r div 4096 * 4096 + r div 64 mod 64 * 64"
    by (simp add: algebra_simps)
  moreover have "r = r div 64 * 64 + r mod 64" by simp
  ultimately show ?thesis by linarith
qed

lemma split4:
  "(r::nat) = r div 262144 * 262144 + r div 4096 mod 64 * 4096 + r div 64 mod 64 * 64 + r mod 64"
proof -
  have "r div 4096 = r div 4096 div 64 * 64 + r div 4096 mod 64" by simp
  also have "r div 4096 div 64 = r div 262144" by (simp add: div_mult2_eq [symmetric])
  finally have "r div 4096 * 4096 = r div 262144 * 262144 + r div 4096 mod 64 * 4096"
    by (simp add: algebra_simps)
  with split3 [of r] show ?thesis by linarith
qed

lemma div64_parts: "(r::nat) div 64 = r div 4096 * 64 + r div 64 mod 64"
proof -
  have "r div 64 = r div 64 div 64 * 64 + r div 64 mod 64" by simp
  also have "r div 64 div 64 = r div 4096" by (simp add: div_mult2_eq [symmetric])
  finally show ?thesis .
qed

lemma div4096_parts: "(r::nat) div 4096 = r div 262144 * 64 + r div 4096 mod 64"
proof -
  have "r div 4096 = r div 4096 div 64 * 64 + r div 4096 mod 64" by simp
  also have "r div 4096 div 64 = r div 262144" by (simp add: div_mult2_eq [symmetric])
  finally show ?thesis .
qed

lemma DecodeRune_Encode3:
  assumes "0x7FF < r" "r \<le> 0xFFFF" "r < 0xD800 \<or> 0xDFFF < r"
  shows "DecodeRune (EncodeRune r @ s) = (r, 3)"
proof -
  let ?a = "r div 4096" and ?b = "r div 64 mod 64" and ?c = "r mod 64"
  have d: "?a < 16" "?b < 64" "?c < 64" using assms by auto
  have r64: "32 \<le> r div 64" using assms by auto
  have lo: "?a = 0 \<longrightarrow> 32 \<le> ?b" using r64 div64_parts [of r] by auto
  have hi: "?a = 13 \<longrightarrow> ?b < 32"
  proof
    assume a: "?a = 13"
    then have "r < 14 * 4096" by auto
    with assms have "r < 0xD800" by simp
    then have "r div 64 < 864" by auto
    with a div64_parts [of r] show "?b < 32" by simp
  qed
  have ns: "\<not> (55296 \<le> r \<and> r \<le> 57343)" using assms(3) by auto
  have enc: "EncodeRune r @ s
               = char_of (224 + ?a) # char_of (128 + ?b) # char_of (128 + ?c) # s"
    using assms(1,2) ns by (auto simp add: EncodeRune_def)
  have "DecodeRune (EncodeRune r @ s) = (?a * 4096 + ?b * 64 + ?c, 3)"
    unfolding enc by (rule DecodeRune_bytes3 [OF d lo hi])
  then show ?thesis by (simp only: split3 [symmetric])
qed

lemma DecodeRune_Encode4:
  assumes "0xFFFF < r" "r \<le> 0x10FFFF"
  shows "DecodeRune (EncodeRune r @ s) = (r, 4)"
proof -
  let ?a = "r div 262144" and ?b = "r div 4096 mod 64" and ?c = "r div 64 mod 64"
    and ?e = "r mod 64"
  have d: "?a < 5" "?b < 64" "?c < 64" "?e < 64" using assms by auto
  have lo4096: "16 \<le> r div 4096" using assms by auto
  have hi4096: "r div 4096 < 272" using assms by auto
  have lo: "?a = 0 \<longrightarrow> 16 \<le> ?b" using lo4096 div4096_parts [of r] by auto
  have hi: "?a = 4 \<longrightarrow> ?b < 16" using hi4096 div4096_parts [of r] by auto
  have enc: "EncodeRune r @ s
               = char_of (240 + ?a) # char_of (128 + ?b) # char_of (128 + ?c)
                   # char_of (128 + ?e) # s"
    using assms by (simp add: EncodeRune_def)
  have "DecodeRune (EncodeRune r @ s) = (?a * 262144 + ?b * 4096 + ?c * 64 + ?e, 4)"
    unfolding enc by (rule DecodeRune_bytes4 [OF d lo hi])
  then show ?thesis by (simp only: split4 [symmetric])
qed

lemma length_EncodeRune:
  "length (EncodeRune r) =
     (if r \<le> 0x7F then 1 else if r \<le> 0x7FF then 2
      else if 0x10FFFF < r \<or> (0xD800 \<le> r \<and> r \<le> 0xDFFF) then 3
      else if r \<le> 0xFFFF then 3 else 4)"
  by (simp add: EncodeRune_def)

lemma DecodeRune_EncodeRune:
  "valid_rune r \<Longrightarrow> DecodeRune (EncodeRune r @ s) = (r, length (EncodeRune r))"
proof -
  assume v: "valid_rune r"
  then have le: "r \<le> 0x10FFFF" and ns: "r < 0xD800 \<or> 0xDFFF < r"
    by (auto simp add: valid_rune_def)
  consider "r \<le> 0x7F" | "0x7F < r" "r \<le> 0x7FF" | "0x7FF < r" "r \<le> 0xFFFF" | "0xFFFF < r"
    by linarith
  then show ?thesis
  proof cases
    case 1
    then have "length (EncodeRune r) = 1" by (simp add: length_EncodeRune)
    with 1 show ?thesis by (simp only: DecodeRune_Encode1)
  next
    case 2
    then have "length (EncodeRune r) = 2" by (simp add: length_EncodeRune)
    with 2 show ?thesis by (simp only: DecodeRune_Encode2)
  next
    case 3
    then have "length (EncodeRune r) = 3" by (simp add: length_EncodeRune)
    with 3 ns show ?thesis by (simp only: DecodeRune_Encode3)
  next
    case 4
    then have "length (EncodeRune r) = 4" using le by (simp add: length_EncodeRune)
    with 4 le show ?thesis by (simp only: DecodeRune_Encode4)
  qed
qed

text \<open>A string of bytes below 0x80 is its own sequence of runes.\<close>

definition ascii :: "string \<Rightarrow> bool" where
  "ascii s \<longleftrightarrow> list_all (\<lambda>c. (of_char c :: nat) < 128) s"

lemma ascii_Nil [simp]: "ascii []"
  by (simp add: ascii_def)

lemma ascii_Cons [simp]: "ascii (c # s) \<longleftrightarrow> (of_char c :: nat) < 128 \<and> ascii s"
  by (simp add: ascii_def)

lemma ascii_append [simp]: "ascii (s @ t) \<longleftrightarrow> ascii s \<and> ascii t"
  by (simp add: ascii_def)

lemma string_of_runes_Nil [simp]: "string_of_runes [] = []"
  by (simp add: string_of_runes_def)

lemma string_of_runes_Cons [simp]:
  "string_of_runes (x # xs) = EncodeRune x @ string_of_runes xs"
  by (simp add: string_of_runes_def)

lemma string_of_runes_append [simp]:
  "string_of_runes (xs @ ys) = string_of_runes xs @ string_of_runes ys"
  by (simp add: string_of_runes_def)

lemma EncodeRune_not_Nil [simp]: "EncodeRune r \<noteq> []"
  by (simp add: EncodeRune_def)

lemma runes_of_string_of_runes:
  "list_all valid_rune xs \<Longrightarrow> runes_of (string_of_runes xs @ s) = xs @ runes_of s"
proof (induction xs)
  case Nil
  then show ?case by simp
next
  case (Cons x xs)
  then have v: "valid_rune x" and vs: "list_all valid_rune xs" by simp_all
  let ?t = "string_of_runes xs @ s"
  have d: "DecodeRune (EncodeRune x @ ?t) = (x, length (EncodeRune x))"
    using v by (rule DecodeRune_EncodeRune)
  have "runes_of (EncodeRune x @ ?t) = x # runes_of ?t"
    by (subst runes_of.simps) (simp add: d)
  with Cons.IH [OF vs] show ?case by simp
qed

lemma EncodeRune_of_char: "(of_char c :: nat) < 128 \<Longrightarrow> EncodeRune (of_char c) = [c]"
  by (simp add: EncodeRune_def)

lemma valid_rune_small: "r < 128 \<Longrightarrow> valid_rune r"
  by (simp add: valid_rune_def)

lemma string_of_runes_ascii: "ascii a \<Longrightarrow> string_of_runes (map of_char a) = a"
  by (induction a) (simp_all add: EncodeRune_of_char)

lemma valid_ascii: "ascii a \<Longrightarrow> list_all valid_rune (map of_char a)"
  by (induction a) (simp_all add: valid_rune_small)

lemma runes_of_ascii: "ascii a \<Longrightarrow> runes_of (a @ s) = map of_char a @ runes_of s"
  using runes_of_string_of_runes [OF valid_ascii, of a s] by (simp add: string_of_runes_ascii)

lemma EncodeRune_small: "r < 128 \<Longrightarrow> EncodeRune r = [char_of r]"
  by (simp add: EncodeRune_def)

lemma EncodeRune_large:
  assumes "\<not> r < 128"
  shows "\<exists>c cs. EncodeRune r = c # cs \<and> 128 \<le> (of_char c :: nat)"
proof -
  have a: "r \<le> 2047 \<Longrightarrow> (192 + r div 64) mod 256 = 192 + r div 64"
    by (rule mod_less) auto
  have b: "r \<le> 65535 \<Longrightarrow> (224 + r div 4096) mod 256 = 224 + r div 4096"
    by (rule mod_less) auto
  have c: "r \<le> 1114111 \<Longrightarrow> (240 + r div 262144) mod 256 = 240 + r div 262144"
    by (rule mod_less) auto
  show ?thesis
    using assms a b c by (auto simp add: EncodeRune_def)
qed

lemma string_of_runes_eq_ascii:
  "string_of_runes xs = s \<Longrightarrow> ascii s \<Longrightarrow> xs = map of_char s"
proof (induction xs arbitrary: s)
  case Nil
  then show ?case by simp
next
  case (Cons x xs)
  show ?case
  proof (cases "x < 128")
    case True
    with Cons.prems have s: "s = char_of x # string_of_runes xs"
      by (simp add: EncodeRune_small)
    with Cons.prems have "ascii (string_of_runes xs)" by simp
    from Cons.IH [OF refl this] s True show ?thesis by simp
  next
    case False
    from EncodeRune_large [OF False] obtain c cs where
      "EncodeRune x = c # cs" "128 \<le> (of_char c :: nat)" by blast
    with Cons.prems show ?thesis by auto
  qed
qed

lemma RuneCountInString_ascii: "ascii s \<Longrightarrow> RuneCountInString s = length s"
proof (induction s)
  case Nil
  then show ?case by (simp add: RuneCountInString.simps)
next
  case (Cons c s)
  then show ?case by (subst RuneCountInString.simps) (simp add: Let_def)
qed

subsection \<open>What \<open>Atoi\<close> accepts\<close>

definition is_digit :: "char \<Rightarrow> bool" where
  "is_digit c \<longleftrightarrow> 48 \<le> (of_char c :: nat) \<and> (of_char c :: nat) \<le> 57"

text \<open>The number that a string of decimal digits denotes, after the digits \<open>n\<close> already read.\<close>

definition number_from :: "int \<Rightarrow> string \<Rightarrow> int" where
  "number_from n s = foldl (\<lambda>n c. n * 10 + (int (of_char c) - 48)) n s"

definition number :: "string \<Rightarrow> int" where
  "number s = number_from 0 s"


lemma byte_minus_48:
  assumes "(x::nat) < 256"
  shows "(x + 256 - 48) mod 256 = (if 48 \<le> x then x - 48 else x + 208)"
proof (cases "48 \<le> x")
  case True
  then have "x + 256 - 48 = (x - 48) + 256 * 1" by simp
  then have "(x + 256 - 48) mod 256 = (x - 48) mod 256" by (simp only: mod_mult_self2)
  also have "\<dots> = x - 48" using assms by (intro mod_less) simp
  finally show ?thesis using True by simp
next
  case False
  then have "x + 256 - 48 = x + 208" by simp
  moreover have "(x + 208) mod 256 = x + 208" using False by (intro mod_less) simp
  ultimately show ?thesis using False by simp
qed

lemma of_char_lt_256: "(of_char c :: nat) < 256"
  by (metis of_char_mod_256 mod_less_divisor zero_less_numeral)

lemma digit_byte:
  "9 < ((of_char c :: nat) + 256 - 48) mod 256 \<longleftrightarrow> \<not> is_digit c"
  unfolding byte_minus_48 [OF of_char_lt_256] by (auto simp add: is_digit_def)

lemma digit_value:
  "is_digit c \<Longrightarrow> int (((of_char c :: nat) + 256 - 48) mod 256) = int (of_char c) - 48"
  unfolding byte_minus_48 [OF of_char_lt_256] by (auto simp add: is_digit_def)

lemma atoi_digits_eq:
  "atoi_digits s n = (if list_all is_digit s then Some (number_from n s) else None)"
proof (induction s arbitrary: n)
  case Nil
  then show ?case by (simp add: number_from_def)
next
  case (Cons c s)
  define d where "d = ((of_char c :: nat) + 256 - 48) mod 256"
  have step: "atoi_digits (c # s) n = (if 9 < d then None else atoi_digits s (n * 10 + int d))"
    unfolding d_def by (simp only: atoi_digits.simps Let_def)
  have nine: "9 < d \<longleftrightarrow> \<not> is_digit c" unfolding d_def by (rule digit_byte)
  show ?case
  proof (cases "is_digit c")
    case True
    then have "int d = int (of_char c) - 48" unfolding d_def by (rule digit_value)
    with True nine show ?thesis
      by (simp only: step Cons.IH) (simp add: number_from_def)
  next
    case False
    with nine show ?thesis by (simp only: step) simp
  qed
qed

lemma number_from_bounds:
  "list_all is_digit s \<Longrightarrow> 0 \<le> n \<Longrightarrow>
     0 \<le> number_from n s \<and> number_from n s < (n + 1) * 10 ^ length s"
proof (induction s arbitrary: n)
  case Nil
  then show ?case by (simp add: number_from_def)
next
  case (Cons c s)
  then have dc: "is_digit c" and ds: "list_all is_digit s" by simp_all
  from dc have d: "48 \<le> int (of_char c)" "int (of_char c) \<le> 57"
    by (simp_all add: is_digit_def)
  let ?m = "n * 10 + (int (of_char c) - 48)"
  have m0: "0 \<le> ?m" using d Cons.prems(2) by simp
  have m1: "?m + 1 \<le> (n + 1) * 10" using d by simp
  from Cons.IH [OF ds m0] have
    lo: "0 \<le> number_from ?m s" and hi: "number_from ?m s < (?m + 1) * 10 ^ length s" by simp_all
  have "(?m + 1) * 10 ^ length s \<le> ((n + 1) * 10) * 10 ^ length s"
    using m1 by (intro mult_right_mono) simp_all
  also have "\<dots> = (n + 1) * 10 ^ length (c # s)" by simp
  finally have le: "(?m + 1) * 10 ^ length s \<le> (n + 1) * 10 ^ length (c # s)" .
  have "number_from ?m s < (n + 1) * 10 ^ length (c # s)"
    by (rule less_le_trans [OF hi le])
  moreover have "number_from n (c # s) = number_from ?m s" by (simp add: number_from_def)
  ultimately show ?case using lo by (simp only:)
qed

lemma number_bounds:
  "list_all is_digit s \<Longrightarrow> 0 \<le> number s \<and> number s < 10 ^ length s"
  using number_from_bounds [of s 0] by (simp add: number_def)

lemma number_int63:
  assumes "list_all is_digit s" "length s \<le> 18"
  shows "0 \<le> number s" "number s \<le> 2 ^ 63 - 1"
proof -
  from number_bounds [OF assms(1)] show "0 \<le> number s" by simp
  from number_bounds [OF assms(1)] have "number s < 10 ^ length s" by simp
  also have "(10::int) ^ length s \<le> 10 ^ 18" using assms(2) by (intro power_increasing) simp_all
  finally show "number s \<le> 2 ^ 63 - 1" by simp
qed


lemma Atoi_digits:
  assumes "list_all is_digit s" "s \<noteq> []" "length s \<le> 18"
  shows "Atoi s = Inr (number s)"
proof -
  obtain c cs where s: "s = c # cs" using assms(2) by (cases s) auto
  with assms(1) have "is_digit c" by simp
  then have ns: "c \<noteq> CHR ''-''" "c \<noteq> CHR ''+''" by (auto simp add: is_digit_def)
  from number_int63 [OF assms(1,3)] have "\<not> (number s < - (2 ^ 63) \<or> 2 ^ 63 - 1 < number s)"
    by simp
  then show ?thesis
    using assms(1) ns s by (simp add: Atoi_def Let_def atoi_digits_eq number_def)
qed

lemma Atoi_signed:
  assumes "list_all is_digit s" "s \<noteq> []" "length s \<le> 18"
  shows "Atoi (CHR ''-'' # s) = Inr (- number s)" and "Atoi (CHR ''+'' # s) = Inr (number s)"
proof -
  from number_int63 [OF assms(1,3)] have
    r: "\<not> (- number s < - (2 ^ 63) \<or> 2 ^ 63 - 1 < - number s)"
       "\<not> (number s < - (2 ^ 63) \<or> 2 ^ 63 - 1 < number s)"
    by simp_all
  show "Atoi (CHR ''-'' # s) = Inr (- number s)"
    using assms(1,2) r(1) by (simp add: Atoi_def Let_def atoi_digits_eq number_def)
  show "Atoi (CHR ''+'' # s) = Inr (number s)"
    using assms(1,2) r(2) by (simp add: Atoi_def Let_def atoi_digits_eq number_def)
qed



subsection \<open>\<open>time.Date\<close> is linear in its fields\<close>

lemma carry_sum:
  fixes day hour minute sec :: int
  assumes "h1 = q3 * 24 + r3" "m1 = q2 * 60 + r2" "sec = q1 * 60 + r1"
    and "m1 = minute + q1" "h1 = hour + q2"
  shows "(day + q3 - 1) * 86400 + (r3 * 3600 + r2 * 60 + r1)
           = (day - 1) * 86400 + hour * 3600 + minute * 60 + sec"
  using assms by (simp add: algebra_simps)

lemma Date_linear:
  assumes "1 \<le> month" "month \<le> 12"
  shows "Date year month day hour minute sec 0 l =
           \<lparr>unix = (daysSinceEpoch year + daysBefore ! nat (month - 1)
                     + (if isLeap year \<and> 3 \<le> month then 1 else 0) + (day - 1)) * 86400
                    + hour * 3600 + minute * 60 + sec,
            nsec = 0, loc = l\<rparr>"
proof -
  have m: "(month - 1) div 12 = 0" "(month - 1) mod 12 = month - 1" using assms by simp_all
  define q1 r1 where "q1 = sec div 60" and "r1 = sec mod 60"
  define m1 where "m1 = minute + q1"
  define q2 r2 where "q2 = m1 div 60" and "r2 = m1 mod 60"
  define h1 where "h1 = hour + q2"
  define q3 r3 where "q3 = h1 div 24" and "r3 = h1 mod 24"
  have e: "h1 = q3 * 24 + r3" "m1 = q2 * 60 + r2" "sec = q1 * 60 + r1"
    by (simp_all add: q1_def r1_def q2_def r2_def q3_def r3_def)
  note t = carry_sum [OF e m1_def h1_def, of day]
  have D: "Date year month day hour minute sec 0 l =
             \<lparr>unix = (daysSinceEpoch year + daysBefore ! nat (month - 1)
                       + (if isLeap year \<and> 3 \<le> month then 1 else 0) + (day + q3 - 1)) * 86400
                      + (r3 * 3600 + r2 * 60 + r1),
              nsec = 0, loc = l\<rparr>"
    by (simp add: Date_def norm_def m Let_def q1_def r1_def q2_def r2_def q3_def r3_def
          m1_def h1_def)
  have "(daysSinceEpoch year + daysBefore ! nat (month - 1)
           + (if isLeap year \<and> 3 \<le> month then 1 else 0) + (day + q3 - 1)) * 86400
          + (r3 * 3600 + r2 * 60 + r1)
        = (daysSinceEpoch year + daysBefore ! nat (month - 1)
           + (if isLeap year \<and> 3 \<le> month then 1 else 0) + (day - 1)) * 86400
          + hour * 3600 + minute * 60 + sec"
    using t by (simp add: algebra_simps)
  with D show ?thesis by simp
qed

subsection \<open>The steps on well-formed text\<close>

lemma run_steps_append:
  "run_steps (fs @ gs) r st =
     (case run_steps fs r st of
        (Some err, r', st') \<Rightarrow> (Some err, r', st')
      | (None, r', st') \<Rightarrow> run_steps gs r' st')"
  by (induction fs arbitrary: r st) (auto split: prod.splits option.splits)

lemma readChars_runes_full:
  "length xs = n \<Longrightarrow>
     readChars_runes n out (xs @ rs) st = (None, rs, out (string_of_runes xs) st)"
  by (simp add: readChars_runes_def)

lemma expectChars_runes_ok:
  "ascii s \<Longrightarrow> expectChars_runes s (map of_char s @ rs) st = (None, rs, st)"
  by (simp add: expectChars_runes_def RuneCountInString_ascii readChars_runes_full
        string_of_runes_ascii)

lemma skipChars_runes_ok:
  "length xs = n \<Longrightarrow> skipChars_runes n (xs @ rs) st = (None, rs, st)"
  by (simp add: skipChars_runes_def readChars_runes_full)

lemma digits_ascii: "list_all is_digit ds \<Longrightarrow> ascii ds"
  by (induction ds) (simp_all add: is_digit_def)

lemma readInt_runes_ok:
  assumes "list_all is_digit ds" "length ds = n" "0 < n" "n \<le> 18"
  shows "readInt_runes n out (map of_char ds @ rs) st = (None, rs, out (number ds) st)"
proof -
  from assms have "Atoi ds = Inr (number ds)" by (intro Atoi_digits) auto
  then show ?thesis
    using assms(2)
    by (simp add: readInt_runes_def readChars_runes_full string_of_runes_ascii
          digits_ascii [OF assms(1)])
qed

lemma readChars_runes_ok:
  "ascii s \<Longrightarrow> length s = n \<Longrightarrow>
     readChars_runes n out (map of_char s @ rs) st = (None, rs, out s st)"
  by (simp add: readChars_runes_full string_of_runes_ascii)

lemma skipSpaces_runes_one:
  "\<not> IsSpace x \<Longrightarrow> skipSpaces_runes (32 # x # rs) st = (None, x # rs, st)"
  by (simp add: skipSpaces_runes_def IsSpace_def)

lemma digit_not_space: "is_digit c \<Longrightarrow> \<not> IsSpace (of_char c)"
  by (auto simp add: is_digit_def IsSpace_def)

lemma run_steps_first_failure:
  assumes "k < length fs" "run_steps (take k fs) r0 st0 = (None, r, st)"
    "fst ((fs ! k) r st) = Some e"
  shows "fst (run_steps fs r0 st0) = Some e"
proof -
  have "fs = take k fs @ (fs ! k) # drop (Suc k) fs"
    using assms(1) by (simp add: id_take_nth_drop)
  then have "run_steps fs r0 st0 = run_steps (take k fs @ (fs ! k) # drop (Suc k) fs) r0 st0"
    by simp
  also have "\<dots> = run_steps ((fs ! k) # drop (Suc k) fs) r st"
    using assms(2) by (simp add: run_steps_append)
  finally show ?thesis
    using assms(3) by (cases "(fs ! k) r st") (auto split: option.splits)
qed

section \<open>Texts of the wire format\<close>

text \<open>
  A text is valid UTF-8 when it is the encoding of the characters that are read from it.
\<close>

definition utf8 :: "string \<Rightarrow> bool" where
  "utf8 s \<longleftrightarrow> list_all valid_rune (runes_of s) \<and> string_of_runes (runes_of s) = s"

definition digits :: "nat \<Rightarrow> string \<Rightarrow> bool" where
  "digits n s \<longleftrightarrow> length s = n \<and> list_all is_digit s"

text \<open>
  The text that the API emits, quotes included:
  \<open>"<weekday>, <DD> <mon> <YYYY> <HH>:<MM>:<SS> GMT+0000"\<close>.
\<close>

definition wire :: "string \<Rightarrow> string \<Rightarrow> string \<Rightarrow> string \<Rightarrow> string \<Rightarrow> string \<Rightarrow> string \<Rightarrow> string"
  where
  "wire wd dd mon yyyy hh mm ss =
     [CHR 0x22] @ wd @ '','' @ '' '' @ dd @ '' '' @ mon @ '' '' @ yyyy @ '' '' @ hh @ '':'' @ mm
       @ '':'' @ ss @ '' '' @ ''GMT+0000'' @ [CHR 0x22]"

text \<open>
  The fields of such a text: three characters of week day, whatever they are; two digits
  of day; three characters of month, the first of which is not white space; four digits of
  year; two digits each of hour, minute and second.
\<close>

definition well_formed ::
  "string \<Rightarrow> string \<Rightarrow> string \<Rightarrow> string \<Rightarrow> string \<Rightarrow> string \<Rightarrow> string \<Rightarrow> bool" where
  "well_formed wd dd mon yyyy hh mm ss \<longleftrightarrow>
     utf8 wd \<and> length (runes_of wd) = 3 \<and> digits 2 dd
     \<and> utf8 mon \<and> length (runes_of mon) = 3 \<and> \<not> IsSpace (hd (runes_of mon))
     \<and> digits 4 yyyy \<and> digits 2 hh \<and> digits 2 mm \<and> digits 2 ss"

lemma runes_of_utf8: "utf8 s \<Longrightarrow> runes_of (s @ t) = runes_of s @ runes_of t"
  using runes_of_string_of_runes [of "runes_of s" t] by (simp add: utf8_def)

lemma runes_of_ascii_only: "ascii a \<Longrightarrow> runes_of a = map of_char a"
  using runes_of_ascii [of a "[]"] by simp

lemma skipSpaces_runes_space:
  "X \<noteq> [] \<Longrightarrow> \<not> IsSpace (hd X) \<Longrightarrow> skipSpaces_runes (map of_char '' '' @ X) st = (None, X, st)"
  by (cases X) (simp_all add: skipSpaces_runes_def IsSpace_def)

lemma wire_runes:
  assumes "well_formed wd dd mon yyyy hh mm ss"
  shows "runes_of (wire wd dd mon yyyy hh mm ss) =
           map of_char [CHR 0x22] @ runes_of wd @ map of_char '','' @ map of_char '' ''
           @ map of_char dd @ map of_char '' '' @ runes_of mon @ map of_char '' ''
           @ map of_char yyyy @ map of_char '' '' @ map of_char hh @ map of_char '':''
           @ map of_char mm @ map of_char '':'' @ map of_char ss @ map of_char '' ''
           @ map of_char ''GMT+0000'' @ map of_char [CHR 0x22]"
proof -
  from assms have u: "utf8 wd" "utf8 mon"
    and d: "ascii dd" "ascii yyyy" "ascii hh" "ascii mm" "ascii ss"
    by (simp_all add: well_formed_def digits_def digits_ascii)
  have l: "ascii [CHR 0x22]" "ascii '',''" "ascii '' ''" "ascii '':''" "ascii ''GMT+0000''"
    by simp_all
  show ?thesis
    unfolding wire_def
    by (simp only: runes_of_utf8 [OF u(1)] runes_of_utf8 [OF u(2)]
          runes_of_ascii [OF d(1)] runes_of_ascii [OF d(2)] runes_of_ascii [OF d(3)]
          runes_of_ascii [OF d(4)] runes_of_ascii [OF d(5)]
          runes_of_ascii [OF l(1)] runes_of_ascii [OF l(2)] runes_of_ascii [OF l(3)]
          runes_of_ascii [OF l(4)] runes_of_ascii [OF l(5)] runes_of_ascii_only [OF l(1)])
qed

text \<open>The variables after the steps have run on a text of the wire format.\<close>

definition wire_vars :: "string \<Rightarrow> string \<Rightarrow> string \<Rightarrow> string \<Rightarrow> string \<Rightarrow> string \<Rightarrow> vars" where
  "wire_vars dd mon yyyy hh mm ss =
     \<lparr>var_mo = mon, var_day = number dd, var_y = number yyyy, var_h = number hh,
      var_m = number mm, var_s = number ss\<rparr>"

lemma wire_steps:
  assumes "well_formed wd dd mon yyyy hh mm ss"
  shows "run_steps steps_runes (runes_of (wire wd dd mon yyyy hh mm ss)) vars0
           = (None, [], wire_vars dd mon yyyy hh mm ss)"
proof -
  from assms have wd: "length (runes_of wd) = 3"
    and mon: "utf8 mon" "length (runes_of mon) = 3" "\<not> IsSpace (hd (runes_of mon))"
    and dd: "list_all is_digit dd" "length dd = 2"
    and yyyy: "list_all is_digit yyyy" "length yyyy = 4"
    and hh: "list_all is_digit hh" "length hh = 2"
    and mm: "list_all is_digit mm" "length mm = 2"
    and ss: "list_all is_digit ss" "length ss = 2"
    by (simp_all add: well_formed_def digits_def)
  define R17 :: "rune list" where "R17 = map of_char [CHR 0x22] @ []"
  define R16 where "R16 = map of_char ''GMT+0000'' @ R17"
  define R15 where "R15 = map of_char '' '' @ R16"
  define R14 where "R14 = map of_char ss @ R15"
  define R13 where "R13 = map of_char '':'' @ R14"
  define R12 where "R12 = map of_char mm @ R13"
  define R11 where "R11 = map of_char '':'' @ R12"
  define R10 where "R10 = map of_char hh @ R11"
  define R9 where "R9 = map of_char '' '' @ R10"
  define R8 where "R8 = map of_char yyyy @ R9"
  define R7 where "R7 = map of_char '' '' @ R8"
  define R6 where "R6 = runes_of mon @ R7"
  define R5 where "R5 = map of_char '' '' @ R6"
  define R4 where "R4 = map of_char dd @ R5"
  define R3 where "R3 = map of_char '' '' @ R4"
  define R2 where "R2 = map of_char '','' @ R3"
  define R1 where "R1 = runes_of wd @ R2"
  define R0 where "R0 = map of_char [CHR 0x22] @ R1"
  note R = R17_def R16_def R15_def R14_def R13_def R12_def R11_def R10_def R9_def R8_def
    R7_def R6_def R5_def R4_def R3_def R2_def R1_def R0_def
  have nd: "map of_char s @ Y \<noteq> [] \<and> \<not> IsSpace (hd (map of_char s @ Y))"
    if "list_all is_digit s" "0 < length s" for s Y
    using that by (cases s) (simp_all add: digit_not_space)
  have e0: "R0 = runes_of (wire wd dd mon yyyy hh mm ss)"
    unfolding R by (simp only: wire_runes [OF assms] append_Nil2)
  have s0: "expectChars_runes [CHR 0x22] R0 st = (None, R1, st)" for st :: vars
    unfolding R0_def by (rule expectChars_runes_ok) simp
  have s1: "skipChars_runes 3 R1 st = (None, R2, st)" for st :: vars
    unfolding R1_def by (rule skipChars_runes_ok) (rule wd)
  have s2: "expectChars_runes '','' R2 st = (None, R3, st)" for st :: vars
    unfolding R2_def by (rule expectChars_runes_ok) simp
  have s3: "skipSpaces_runes R3 st = (None, R4, st)" for st :: vars
    unfolding R3_def R4_def using nd [OF dd(1), of R5] dd(2)
    by (intro skipSpaces_runes_space) simp_all
  have s4: "readInt_runes 2 out R4 st = (None, R5, out (number dd) st)"
    for st :: vars and out
    unfolding R4_def using dd by (intro readInt_runes_ok) simp_all
  have s5: "skipSpaces_runes R5 st = (None, R6, st)" for st :: vars
  proof -
    from mon(2) have "runes_of mon \<noteq> []" by auto
    with mon(3) have "R6 \<noteq> []" "\<not> IsSpace (hd R6)" by (simp_all add: R6_def)
    then show ?thesis unfolding R5_def by (rule skipSpaces_runes_space)
  qed
  have "readChars_runes 3 out R6 st = (None, R7, out (string_of_runes (runes_of mon)) st)"
    for st :: vars and out
    unfolding R6_def by (rule readChars_runes_full) (rule mon(2))
  then have s6: "readChars_runes 3 out R6 st = (None, R7, out mon st)" for st :: vars and out
    using mon(1) by (simp add: utf8_def)
  have s7: "skipSpaces_runes R7 st = (None, R8, st)" for st :: vars
    unfolding R7_def R8_def using nd [OF yyyy(1), of R9] yyyy(2)
    by (intro skipSpaces_runes_space) simp_all
  have s8: "readInt_runes 4 out R8 st = (None, R9, out (number yyyy) st)"
    for st :: vars and out
    unfolding R8_def using yyyy by (intro readInt_runes_ok) simp_all
  have s9: "skipSpaces_runes R9 st = (None, R10, st)" for st :: vars
    unfolding R9_def R10_def using nd [OF hh(1), of R11] hh(2)
    by (intro skipSpaces_runes_space) simp_all
  have s10: "readInt_runes 2 out R10 st = (None, R11, out (number hh) st)"
    for st :: vars and out
    unfolding R10_def using hh by (intro readInt_runes_ok) simp_all
  have s11: "expectChars_runes '':'' R11 st = (None, R12, st)" for st :: vars
    unfolding R11_def by (rule expectChars_runes_ok) simp
  have s12: "readInt_runes 2 out R12 st = (None, R13, out (number mm) st)"
    for st :: vars and out
    unfolding R12_def using mm by (intro readInt_runes_ok) simp_all
  have s13: "expectChars_runes '':'' R13 st = (None, R14, st)" for st :: vars
    unfolding R13_def by (rule expectChars_runes_ok) simp
  have s14: "readInt_runes 2 out R14 st = (None, R15, out (number ss) st)"
    for st :: vars and out
    unfolding R14_def using ss by (intro readInt_runes_ok) simp_all
  have s15: "skipSpaces_runes R15 st = (None, R16, st)" for st :: vars
    unfolding R15_def by (intro skipSpaces_runes_space) (simp_all add: R16_def IsSpace_def)
  have s16: "expectChars_runes ''GMT+0000'' R16 st = (None, R17, st)" for st :: vars
    unfolding R16_def by (rule expectChars_runes_ok) simp
  have s17: "expectChars_runes [CHR 0x22] R17 st = (None, [], st)" for st :: vars
    unfolding R17_def by (rule expectChars_runes_ok) simp
  have "run_steps steps_runes R0 vars0 = (None, [], wire_vars dd mon yyyy hh mm ss)"
    unfolding steps_runes_def
    by (simp only: run_steps.simps s0 s1 s2 s3 s4 s5 s6 s7 s8 s9 s10 s11 s12 s13 s14 s15 s16
          s17 prod.case option.case)
       (simp add: vars0_def wire_vars_def)
  then show ?thesis by (simp only: e0)
qed

lemma wire_decodes:
  assumes "well_formed wd dd mon yyyy hh mm ss"
  shows "UnmarshalJSON d (wire wd dd mon yyyy hh mm ss) =
           (case months mon of
              None \<Rightarrow> (Some (InvalidMonth mon), d)
            | Some month \<Rightarrow>
                (None, d\<lparr>Time := Date (number yyyy) month (number dd) (number hh) (number mm)
                                       (number ss) 0 UTC\<rparr>))"
  by (cases "months mon") (simp_all add: UnmarshalJSON_runes wire_steps [OF assms] wire_vars_def)

lemma months_range: "months mon = Some month \<Longrightarrow> 1 \<le> month \<and> month \<le> 12"
  by (auto simp add: months_def split: if_splits)

lemma ascii_utf8: "ascii s \<Longrightarrow> utf8 s"
  by (simp add: utf8_def runes_of_ascii_only string_of_runes_ascii valid_ascii)

lemma expectChars_runes_quote:
  "expectChars_runes [CHR 0x22] (q # X) st =
     (if EncodeRune q \<noteq> [CHR 0x22] then (Some (Expecting [CHR 0x22] (EncodeRune q)), X, st)
      else (None, X, st))"
  by (simp add: expectChars_runes_def RuneCountInString_ascii readChars_runes_def)

text \<open>
  The error and the variables of the steps on characters \<open>q # w @ rest\<close>, where \<open>w\<close> are
  three characters: they are those of the steps after the first two on \<open>rest\<close>, when \<open>q\<close>
  is the quote.
\<close>

lemma steps_runes_weekday:
  assumes "length w = 3"
  shows "\<exists>rs. run_steps steps_runes (q # w @ rest) vars0 =
           (if EncodeRune q \<noteq> [CHR 0x22]
            then (Some (Expecting [CHR 0x22] (EncodeRune q)), rs, vars0)
            else run_steps (drop 2 steps_runes) rest vars0)"
proof -
  have s: "steps_runes = expectChars_runes [CHR 0x22] # skipChars_runes 3 # drop 2 steps_runes"
    by (simp add: steps_runes_def)
  have "run_steps (expectChars_runes [CHR 0x22] # skipChars_runes 3 # drop 2 steps_runes)
          (q # w @ rest) vars0 =
           (if EncodeRune q \<noteq> [CHR 0x22]
            then (Some (Expecting [CHR 0x22] (EncodeRune q)), w @ rest, vars0)
            else run_steps (drop 2 steps_runes) rest vars0)"
    by (simp add: expectChars_runes_quote skipChars_runes_ok [OF assms])
  then show ?thesis by (subst s) auto
qed

lemma UnmarshalJSON_weekday:
  assumes "runes_of b = q # w @ rest" and "length w = 3"
  shows "UnmarshalJSON d b =
           (if EncodeRune q \<noteq> [CHR 0x22]
            then (Some (ParsingDate b (Expecting [CHR 0x22] (EncodeRune q))), d)
            else case run_steps (drop 2 steps_runes) rest vars0 of
                   (Some err, rs, v) \<Rightarrow> (Some (ParsingDate b err), d)
                 | (None, rs, v) \<Rightarrow>
                     (case months (var_mo v) of
                        None \<Rightarrow> (Some (InvalidMonth (var_mo v)), d)
                      | Some month \<Rightarrow>
                          (None, d\<lparr>Time := Date (var_y v) month (var_day v) (var_h v)
                                                 (var_m v) (var_s v) 0 UTC\<rparr>)))"
proof -
  from steps_runes_weekday [OF assms(2), of q rest] obtain rs where
    "run_steps steps_runes (q # w @ rest) vars0 =
           (if EncodeRune q \<noteq> [CHR 0x22]
            then (Some (Expecting [CHR 0x22] (EncodeRune q)), rs, vars0)
            else run_steps (drop 2 steps_runes) rest vars0)" ..
  then show ?thesis
    by (simp add: UnmarshalJSON_runes assms(1))
qed

subsection \<open>What a successful step has read\<close>

lemma refines_result:
  assumes "refines f F" and "f r st = (e, r', st')"
  shows "F (pending r) st = (e, pending r', st')"
proof -
  from assms(1) obtain r'' where
    "pending r'' = fst (snd (F (pending r) st))"
    "f r st = (fst (F (pending r) st), r'', snd (snd (F (pending r) st)))"
    unfolding refines_def by blast
  with assms(2) show ?thesis by (cases "F (pending r) st") auto
qed

lemma NUL_not_ascii_text:
  assumes "xs @ [0::nat] = map of_char s"
  shows "s \<noteq> [] \<and> last s = CHR 0x00"
proof -
  from assms have n: "s \<noteq> []" by auto
  have "last (xs @ [0::nat]) = 0" by simp
  then have "last (map of_char s) = (0::nat)" by (simp only: assms)
  with n have "(of_char (last s) :: nat) = 0" by (simp add: last_map)
  then have "of_char (last s) = (of_char (CHR 0x00) :: nat)" by simp
  then have "last s = CHR 0x00" by (simp only: of_char_eq_iff)
  with n show ?thesis by simp
qed

lemma readChars_runes_ascii:
  assumes "readChars_runes n out rs st = (None, rs', st')"
    and "\<And>x. st' = out x st \<Longrightarrow> ascii x \<and> P x"
    and "\<And>x. P x \<Longrightarrow> x \<noteq> [] \<Longrightarrow> last x \<noteq> CHR 0x00"
    and "inj (\<lambda>x. out x st)"
  shows "\<exists>s. rs = map of_char s @ rs' \<and> length s = n \<and> st' = out s st"
proof (cases "n \<le> length rs")
  case True
  let ?s = "string_of_runes (take n rs)"
  from True assms(1) have r: "rs' = drop n rs" "st' = out ?s st"
    by (simp_all add: readChars_runes_def)
  from assms(2) [OF r(2)] have "ascii ?s" by simp
  from string_of_runes_eq_ascii [OF refl this] have t: "take n rs = map of_char ?s" .
  then have "length ?s = length (take n rs)" by (metis length_map)
  with True have "length ?s = n" by simp
  moreover have "rs = map of_char ?s @ rs'"
    using t r(1) by (metis append_take_drop_id)
  ultimately show ?thesis using r(2) by blast
next
  case False
  with assms(1) have s: "Suc (length rs) = n" and
    r: "st' = out (string_of_runes (rs @ [0])) st"
    by (auto simp add: readChars_runes_def split: if_splits)
  let ?s = "string_of_runes (rs @ [0])"
  from assms(2) [OF r] have a: "ascii ?s" and p: "P ?s" by simp_all
  from string_of_runes_eq_ascii [OF refl a] have "rs @ [0] = map of_char ?s" .
  from NUL_not_ascii_text [OF this] assms(3) [OF p] show ?thesis by simp
qed

lemma expectChars_runes_None:
  assumes "expectChars_runes s rs st = (None, rs', st')"
    and "ascii s" and "s \<noteq> []" and "last s \<noteq> CHR 0x00"
  shows "rs = map of_char s @ rs' \<and> st' = st"
proof -
  let ?n = "RuneCountInString s"
  obtain e rs1 x where R: "readChars_runes ?n (\<lambda>x _. x) rs [] = (e, rs1, x)"
    by (cases "readChars_runes ?n (\<lambda>x _. x) rs ([]::string)")
  with assms(1) have e: "e = None" and x: "x = s" and r: "rs1 = rs'" and st: "st' = st"
    by (auto simp add: expectChars_runes_def Let_def split: option.splits if_splits)
  have "\<exists>t. rs = map of_char t @ rs1 \<and> length t = ?n \<and> x = (\<lambda>x _. x) t []"
  proof (rule readChars_runes_ascii [where P = "\<lambda>y. y = s"])
    show "readChars_runes ?n (\<lambda>x _. x) rs [] = (None, rs1, x)" using R e by simp
    show "ascii y \<and> y = s" if "x = (\<lambda>x _. x) y []" for y
      using that x assms(2) by simp
    show "last y \<noteq> CHR 0x00" if "y = s" for y using that assms(4) by simp
    show "inj (\<lambda>x. (\<lambda>x _. x) x [])" by (simp add: inj_on_def)
  qed
  with x r st show ?thesis by auto
qed



lemma UnmarshalJSON_None:
  "fst (UnmarshalJSON d b) = None \<longleftrightarrow>
     (\<exists>r v. run_steps steps (NewReader b) vars0 = (None, r, v) \<and> months (var_mo v) \<noteq> None)"
  by (auto simp add: UnmarshalJSON_def split: prod.splits option.splits)

lemma steps_timezone:
  "steps = take 16 steps @ [expectChars ''GMT+0000'', expectChars [CHR 0x22]]"
  by (simp add: steps_def)

lemma run_timezone:
  "run_steps steps r0 v0 =
     (case run_steps (take 16 steps) r0 v0 of
        (Some err, r, v) \<Rightarrow> (Some err, r, v)
      | (None, r, v) \<Rightarrow> run_steps [expectChars ''GMT+0000'', expectChars [CHR 0x22]] r v)"
proof -
  have "run_steps steps r0 v0
         = run_steps (take 16 steps @ [expectChars ''GMT+0000'', expectChars [CHR 0x22]]) r0 v0"
    by (rule arg_cong [where f = "\<lambda>fs. run_steps fs r0 v0", OF steps_timezone])
  then show ?thesis by (simp only: run_steps_append)
qed

text \<open>
  The last two steps, on a reader: they succeed exactly when the pending characters are
  \<open>GMT+0000\<close>, the quote, and anything after it.
\<close>

lemma timezone_steps:
  fixes v :: vars
  shows "(\<exists>r'. run_steps [expectChars ''GMT+0000'', expectChars [CHR 0x22]] r v = (None, r', v'))
     \<longleftrightarrow> v' = v \<and> (\<exists>rest. pending r = map of_char (''GMT+0000'' @ [CHR 0x22]) @ rest)"
proof
  assume "\<exists>r'. run_steps [expectChars ''GMT+0000'', expectChars [CHR 0x22]] r v = (None, r', v')"
  then obtain r' where
    R: "run_steps [expectChars ''GMT+0000'', expectChars [CHR 0x22]] r v = (None, r', v')" ..
  obtain e1 r1 v1 where s1: "expectChars ''GMT+0000'' r v = (e1, r1, v1)"
    by (cases "expectChars ''GMT+0000'' r v")
  with R have e1: "e1 = None" by (auto split: option.splits)
  with R s1 have s2: "expectChars [CHR 0x22] r1 v1 = (None, r', v')"
    by (cases "expectChars [CHR 0x22] r1 v1") (auto split: option.splits)
  from refines_result [OF expectChars_refines s1] e1
  have "expectChars_runes ''GMT+0000'' (pending r) v = (None, pending r1, v1)" by simp
  from expectChars_runes_None [OF this]
  have a: "pending r = map of_char ''GMT+0000'' @ pending r1" "v1 = v" by simp_all
  from refines_result [OF expectChars_refines s2]
  have "expectChars_runes [CHR 0x22] (pending r1) v1 = (None, pending r', v')" .
  from expectChars_runes_None [OF this]
  have b: "pending r1 = map of_char [CHR 0x22] @ pending r'" "v' = v1" by simp_all
  from a b show "v' = v \<and> (\<exists>rest. pending r = map of_char (''GMT+0000'' @ [CHR 0x22]) @ rest)"
    by simp
next
  assume "v' = v \<and> (\<exists>rest. pending r = map of_char (''GMT+0000'' @ [CHR 0x22]) @ rest)"
  then obtain rest where v: "v' = v"
    and p: "pending r = map of_char ''GMT+0000'' @ map of_char [CHR 0x22] @ rest"
    by auto
  have "expectChars_runes ''GMT+0000'' (pending r) v = (None, map of_char [CHR 0x22] @ rest, v)"
    unfolding p by (rule expectChars_runes_ok) simp
  from refinesD [OF expectChars_refines this] obtain r1 where
    r1: "pending r1 = map of_char [CHR 0x22] @ rest" "expectChars ''GMT+0000'' r v = (None, r1, v)"
    by blast
  have "expectChars_runes [CHR 0x22] (pending r1) v = (None, rest, v)"
    unfolding r1(1) by (rule expectChars_runes_ok) simp
  from refinesD [OF expectChars_refines this] obtain r2 where
    "expectChars [CHR 0x22] r1 v = (None, r2, v)" by blast
  with r1(2) v
  show "\<exists>r'. run_steps [expectChars ''GMT+0000'', expectChars [CHR 0x22]] r v = (None, r', v')"
    by simp
qed

subsection \<open>The steps that read a number\<close>




subsection \<open>The steps on a longer input\<close>
















subsection \<open>The steps, one after the other, on two week days\<close>

lemma run_steps_refines_fst:
  assumes "list_all2 refines fs Fs"
  shows "fst (run_steps fs r st) = fst (run_steps Fs (pending r) st)"
proof -
  from run_steps_refines [OF assms] obtain r' where
    "run_steps fs r st = (fst (run_steps Fs (pending r) st), r',
       snd (snd (run_steps Fs (pending r) st)))"
    unfolding refines_def by blast
  then show ?thesis by simp
qed

lemma take_steps_runes:
  "fst (run_steps (take k steps) (NewReader b) vars0)
     = fst (run_steps (take k steps_runes) (runes_of b) vars0)"
  using run_steps_refines_fst [OF list_all2_takeI [OF steps_refine], of k "NewReader b" vars0]
  by simp

lemma take_steps_runes_weekday:
  assumes "length w = 3" and "length w' = 3"
  shows "fst (run_steps (take k steps_runes) (q # w @ rest) vars0)
           = fst (run_steps (take k steps_runes) (q # w' @ rest) vars0)"
proof -
  have s: "steps_runes = expectChars_runes [CHR 0x22] # skipChars_runes 3 # drop 2 steps_runes"
    by (simp add: steps_runes_def)
  consider "k = 0" | "k = 1" | j where "k = Suc (Suc j)"
    by (cases k; cases "k - 1") auto
  then show ?thesis
  proof cases
    case 1
    then show ?thesis by simp
  next
    case 2
    have "take 1 steps_runes = [expectChars_runes [CHR 0x22]]"
      by (subst s) simp
    with 2 show ?thesis by (simp add: expectChars_runes_quote)
  next
    case 3
    have "take k steps_runes
            = expectChars_runes [CHR 0x22] # skipChars_runes 3 # take j (drop 2 steps_runes)"
      unfolding 3 by (subst s) simp
    then show ?thesis
      by (simp add: expectChars_runes_quote skipChars_runes_ok [OF assms(1)]
            skipChars_runes_ok [OF assms(2)])
  qed
qed

section \<open>The claims\<close>

text \<open>
  The zero value of \<open>Datetime\<close>, as \<open>var d Datetime\<close> declares it: the zero \<open>time.Time\<close> is
  January 1 of year 1, 00:00:00 UTC.
\<close>

definition zero_Datetime :: Datetime where
  "zero_Datetime = \<lparr>Time = \<lparr>unix = - 62135596800, nsec = 0, loc = UTC\<rparr>\<rparr>"

text \<open>
  C1. On the bytes of \<open>"dom, 18 nov 2012 23:00:00 GMT+0000"\<close>, quotes included,
  \<open>UnmarshalJSON\<close> returns no error and sets the receiver to
  \<open>time.Date(2012, time.November, 18, 23, 0, 0, 0, time.UTC)\<close>, the value the test
  \<open>TestDatetime\<close> expects. That instant is 1353279600 seconds after the Unix epoch, which is
  2012-11-18T23:00:00 UTC, with zero nanoseconds, in UTC.
\<close>

theorem test_input_decodes:
  "UnmarshalJSON d (CHR 0x22 # ''dom, 18 nov 2012 23:00:00 GMT+0000'' @ [CHR 0x22])
     = (None, d\<lparr>Time := Date 2012 11 18 23 0 0 0 UTC\<rparr>)
   \<and> Date 2012 11 18 23 0 0 0 UTC = \<lparr>unix = 1353279600, nsec = 0, loc = UTC\<rparr>"
  by code_simp

text \<open>
  C6. Whenever \<open>UnmarshalJSON\<close> returns an error, whatever its kind, the receiver is the
  one it was given: nothing of a failed decode is stored.
\<close>

theorem error_leaves_receiver:
  "fst (UnmarshalJSON d b) \<noteq> None \<Longrightarrow> snd (UnmarshalJSON d b) = d"
  by (auto simp add: UnmarshalJSON_def split: prod.splits option.splits)

theorem error_leaves_receiver_witness:
  "fst (UnmarshalJSON zero_Datetime (CHR 0x22 # ''dom, 18 nov 2012 23:00:00 GMT+000'')) \<noteq> None
   \<and> snd (UnmarshalJSON zero_Datetime (CHR 0x22 # ''dom, 18 nov 2012 23:00:00 GMT+000''))
       = zero_Datetime"
proof -
  have h: "fst (UnmarshalJSON zero_Datetime (CHR 0x22 # ''dom, 18 nov 2012 23:00:00 GMT+000''))
             \<noteq> None"
    by code_simp
  from h error_leaves_receiver [OF h] show ?thesis by (rule conjI)
qed

text \<open>
  C7, as stated, fails: on \<open>"xxx, 18 foo 2012 23:00:00 GMT+0000"\<close> every step succeeds and
  the month token is unknown, and the error is \<open>"invalid month: foo"\<close>, which holds the
  token only and not the raw input.
\<close>

theorem invalid_month_error_without_raw_input:
  "fst (UnmarshalJSON zero_Datetime
          (CHR 0x22 # ''xxx, 18 foo 2012 23:00:00 GMT+0000'' @ [CHR 0x22]))
     = Some (InvalidMonth ''foo'')"
  by code_simp

text \<open>
  C7, amended. An error of \<open>UnmarshalJSON\<close> is of one of two kinds. When the steps before
  step \<open>k\<close> succeed and step \<open>k\<close> fails with \<open>e\<close>, the loop over the steps stops there with
  \<open>e\<close>, and the error returned is \<open>"error parsing date %q: %s"\<close> with the raw input \<open>b\<close> and
  \<open>e\<close>; so it is whenever the loop over the steps ends with an error \<open>e\<close>. When every step
  succeeds and the month token is not in \<open>months\<close>, the error returned is
  \<open>"invalid month: %s"\<close> with the token alone. No other error is returned. In both cases the
  receiver is returned as it was given.
\<close>

theorem error_kinds:
  "(k < length steps \<and> run_steps (take k steps) (NewReader b) vars0 = (None, r, v)
      \<and> fst ((steps ! k) r v) = Some e
      \<longrightarrow> fst (run_steps steps (NewReader b) vars0) = Some e
          \<and> UnmarshalJSON d b = (Some (ParsingDate b e), d))
   \<and> (fst (run_steps steps (NewReader b) vars0) = Some e
      \<longrightarrow> UnmarshalJSON d b = (Some (ParsingDate b e), d))
   \<and> (run_steps steps (NewReader b) vars0 = (None, r, v) \<and> months (var_mo v) = None
      \<longrightarrow> UnmarshalJSON d b = (Some (InvalidMonth (var_mo v)), d))
   \<and> (fst (UnmarshalJSON d b) = Some err
      \<longrightarrow> (\<exists>e. err = ParsingDate b e \<and> fst (run_steps steps (NewReader b) vars0) = Some e)
          \<or> (\<exists>v. err = InvalidMonth (var_mo v) \<and> months (var_mo v) = None
                \<and> fst (run_steps steps (NewReader b) vars0) = None
                \<and> snd (snd (run_steps steps (NewReader b) vars0)) = v))"
proof -
  have B: "UnmarshalJSON d b = (Some (ParsingDate b e'), d)"
    if "fst (run_steps steps (NewReader b) vars0) = Some e'" for e'
    using that by (auto simp add: UnmarshalJSON_def split: prod.splits option.splits)
  have A: "fst (run_steps steps (NewReader b) vars0) = Some e
            \<and> UnmarshalJSON d b = (Some (ParsingDate b e), d)"
    if "k < length steps" "run_steps (take k steps) (NewReader b) vars0 = (None, r, v)"
      "fst ((steps ! k) r v) = Some e"
    using run_steps_first_failure [OF that] B by simp
  have C: "UnmarshalJSON d b = (Some (InvalidMonth (var_mo v)), d)"
    if "run_steps steps (NewReader b) vars0 = (None, r, v)" "months (var_mo v) = None"
    using that by (simp add: UnmarshalJSON_def)
  have D: "(\<exists>e. err = ParsingDate b e \<and> fst (run_steps steps (NewReader b) vars0) = Some e)
          \<or> (\<exists>v. err = InvalidMonth (var_mo v) \<and> months (var_mo v) = None
                \<and> fst (run_steps steps (NewReader b) vars0) = None
                \<and> snd (snd (run_steps steps (NewReader b) vars0)) = v)"
    if "fst (UnmarshalJSON d b) = Some err"
    using that by (auto simp add: UnmarshalJSON_def split: prod.splits option.splits)
  from A B C D show ?thesis by blast
qed

theorem error_kinds_witness:
  "((2::nat) < length steps
     \<and> run_steps (take 2 steps)
         (NewReader (CHR 0x22 # ''dom; 18 nov 2012 23:00:00 GMT+0000'')) vars0
       = (None,
          \<lparr>rbuf = CHR 0x22 # ''dom; 18 nov 2012 23:00:00 GMT+0000'', rpos = 4,
             lastRuneSize = 1\<rparr>,
          vars0)
     \<and> fst ((steps ! 2)
          \<lparr>rbuf = CHR 0x22 # ''dom; 18 nov 2012 23:00:00 GMT+0000'', rpos = 4,
             lastRuneSize = 1\<rparr> vars0)
       = Some (Expecting '','' '';''))
   \<and> fst (run_steps steps
            (NewReader (CHR 0x22 # ''dom; 18 nov 2012 23:00:00 GMT+0000'')) vars0)
       = Some (Expecting '','' '';'')
   \<and> UnmarshalJSON zero_Datetime (CHR 0x22 # ''dom; 18 nov 2012 23:00:00 GMT+0000'')
       = (Some (ParsingDate (CHR 0x22 # ''dom; 18 nov 2012 23:00:00 GMT+0000'')
                  (Expecting '','' '';'')),
          zero_Datetime)
   \<and> (run_steps steps
         (NewReader (CHR 0x22 # ''xxx, 18 foo 2012 23:00:00 GMT+0000'' @ [CHR 0x22])) vars0
       = (None,
          \<lparr>rbuf = CHR 0x22 # ''xxx, 18 foo 2012 23:00:00 GMT+0000'' @ [CHR 0x22], rpos = 36,
             lastRuneSize = 1\<rparr>,
          \<lparr>var_mo = ''foo'', var_day = 18, var_y = 2012, var_h = 23, var_m = 0, var_s = 0\<rparr>)
        \<and> months ''foo'' = None)
   \<and> UnmarshalJSON zero_Datetime
         (CHR 0x22 # ''xxx, 18 foo 2012 23:00:00 GMT+0000'' @ [CHR 0x22])
       = (Some (InvalidMonth ''foo''), zero_Datetime)"
proof -
  let ?b1 = "CHR 0x22 # ''dom; 18 nov 2012 23:00:00 GMT+0000''"
  let ?r1 = "\<lparr>rbuf = ?b1, rpos = 4, lastRuneSize = 1\<rparr>"
  let ?e1 = "Expecting '','' '';''"
  let ?b2 = "CHR 0x22 # ''xxx, 18 foo 2012 23:00:00 GMT+0000'' @ [CHR 0x22]"
  let ?r2 = "\<lparr>rbuf = ?b2, rpos = 36, lastRuneSize = 1\<rparr>"
  let ?v2 = "\<lparr>var_mo = ''foo'', var_day = 18, var_y = 2012, var_h = 23, var_m = 0, var_s = 0\<rparr>"
  have h1: "(2::nat) < length steps
     \<and> run_steps (take 2 steps) (NewReader ?b1) vars0 = (None, ?r1, vars0)
     \<and> fst ((steps ! 2) ?r1 vars0) = Some ?e1"
    by code_simp
  have h2: "run_steps steps (NewReader ?b2) vars0 = (None, ?r2, ?v2)
     \<and> months (var_mo ?v2) = None"
    by code_simp
  have h2': "run_steps steps (NewReader ?b2) vars0 = (None, ?r2, ?v2) \<and> months ''foo'' = None"
    by code_simp
  have sel: "var_mo ?v2 = ''foo''"
    by (simp only: vars.simps)
  note k1 = error_kinds [where k = 2 and b = ?b1 and r = ?r1 and v = vars0 and e = ?e1
      and d = zero_Datetime]
  note k2 = error_kinds [where b = ?b2 and r = ?r2 and v = ?v2 and d = zero_Datetime]
  have c1: "fst (run_steps steps (NewReader ?b1) vars0) = Some ?e1
     \<and> UnmarshalJSON zero_Datetime ?b1 = (Some (ParsingDate ?b1 ?e1), zero_Datetime)"
    by (rule k1 [THEN conjunct1, THEN mp, OF h1])
  have "UnmarshalJSON zero_Datetime ?b2 = (Some (InvalidMonth (var_mo ?v2)), zero_Datetime)"
    by (rule k2 [THEN conjunct2, THEN conjunct2, THEN conjunct1, THEN mp, OF h2])
  then have c2: "UnmarshalJSON zero_Datetime ?b2
      = (Some (InvalidMonth ''foo''), zero_Datetime)"
    by (simp only: sel)
  show ?thesis
    by (rule conjI [OF h1 conjI [OF conjunct1 [OF c1] conjI [OF conjunct2 [OF c1]
          conjI [OF h2' c2]]]])
qed

text \<open>
  C8. \<open>skipSpaces\<close> returns no error on any reader, whatever its position and its
  \<open>lastRuneSize\<close>, and writes no variable. The runes pending afterwards are the pending
  runes without their longest prefix of white space: nothing but white space is consumed,
  the reader stands before the first rune that is not white space when there is one, and
  at the end of the input otherwise.
\<close>

theorem skipSpaces_never_fails:
  "\<exists>r'. skipSpaces r st = (None, r', st) \<and> pending r' = dropWhile IsSpace (pending r)"
  using skipSpaces_loop_spec [of r] by (auto simp add: skipSpaces_def)

text \<open>
  C10. The numeric fields are not checked against the calendar. On every text of the wire
  format with a month of the table, whatever the digits of the day (two), the year (four),
  the hour, the minute and the second (two each), \<open>UnmarshalJSON\<close> returns no error and
  sets the receiver to \<open>time.Date\<close> of the numbers read, in UTC. That instant is linear in
  the day, the hour, the minute and the second: the days before the first of the month,
  plus the day less one, in seconds, plus the hours, minutes and seconds in seconds, so a
  field out of range carries into the next one. On \<open>"dom, 32 nov 2012 25:61:00 GMT+0000"\<close>
  the instant is 2012-12-03T02:01:00 UTC.
\<close>

theorem no_calendar_range_validation:
  assumes "well_formed wd dd mon yyyy hh mm ss" and "months mon = Some month"
  shows "UnmarshalJSON d (wire wd dd mon yyyy hh mm ss)
           = (None, d\<lparr>Time := Date (number yyyy) month (number dd) (number hh) (number mm)
                                  (number ss) 0 UTC\<rparr>)
         \<and> Date (number yyyy) month (number dd) (number hh) (number mm) (number ss) 0 UTC
           = \<lparr>unix = (daysSinceEpoch (number yyyy) + daysBefore ! nat (month - 1)
                       + (if isLeap (number yyyy) \<and> 3 \<le> month then 1 else 0)
                       + (number dd - 1)) * 86400
                      + number hh * 3600 + number mm * 60 + number ss,
              nsec = 0, loc = UTC\<rparr>"
proof
  show "UnmarshalJSON d (wire wd dd mon yyyy hh mm ss)
           = (None, d\<lparr>Time := Date (number yyyy) month (number dd) (number hh) (number mm)
                                  (number ss) 0 UTC\<rparr>)"
    using wire_decodes [OF assms(1), of d] assms(2) by simp
  from months_range [OF assms(2)] have "1 \<le> month" "month \<le> 12" by simp_all
  then show "Date (number yyyy) month (number dd) (number hh) (number mm) (number ss) 0 UTC
           = \<lparr>unix = (daysSinceEpoch (number yyyy) + daysBefore ! nat (month - 1)
                       + (if isLeap (number yyyy) \<and> 3 \<le> month then 1 else 0)
                       + (number dd - 1)) * 86400
                      + number hh * 3600 + number mm * 60 + number ss,
              nsec = 0, loc = UTC\<rparr>"
    by (rule Date_linear)
qed

theorem no_calendar_range_validation_witness:
  "well_formed ''dom'' ''32'' ''nov'' ''2012'' ''25'' ''61'' ''00''
   \<and> months ''nov'' = Some 11
   \<and> wire ''dom'' ''32'' ''nov'' ''2012'' ''25'' ''61'' ''00''
       = CHR 0x22 # ''dom, 32 nov 2012 25:61:00 GMT+0000'' @ [CHR 0x22]
   \<and> UnmarshalJSON zero_Datetime (wire ''dom'' ''32'' ''nov'' ''2012'' ''25'' ''61'' ''00'')
       = (None, \<lparr>Time = \<lparr>unix = 1354500060, nsec = 0, loc = UTC\<rparr>\<rparr>)"
proof -
  have w: "well_formed ''dom'' ''32'' ''nov'' ''2012'' ''25'' ''61'' ''00''"
    by (simp add: well_formed_def ascii_utf8 runes_of_ascii_only digits_def is_digit_def
          IsSpace_def)
  have m: "months ''nov'' = Some 11"
    by code_simp
  have t: "wire ''dom'' ''32'' ''nov'' ''2012'' ''25'' ''61'' ''00''
       = CHR 0x22 # ''dom, 32 nov 2012 25:61:00 GMT+0000'' @ [CHR 0x22]"
    by code_simp
  have n: "zero_Datetime\<lparr>Time :=
        \<lparr>unix = (daysSinceEpoch (number ''2012'') + daysBefore ! nat (11 - 1)
                       + (if isLeap (number ''2012'') \<and> 3 \<le> (11::int) then 1 else 0)
                       + (number ''32'' - 1)) * 86400
                      + number ''25'' * 3600 + number ''61'' * 60 + number ''00'',
              nsec = 0, loc = UTC\<rparr>\<rparr>
       = \<lparr>Time = \<lparr>unix = 1354500060, nsec = 0, loc = UTC\<rparr>\<rparr>"
    by code_simp
  note k = no_calendar_range_validation [OF w m, of zero_Datetime]
  have "UnmarshalJSON zero_Datetime (wire ''dom'' ''32'' ''nov'' ''2012'' ''25'' ''61'' ''00'')
       = (None, \<lparr>Time = \<lparr>unix = 1354500060, nsec = 0, loc = UTC\<rparr>\<rparr>)"
    by (simp only: k [THEN conjunct1] k [THEN conjunct2] n)
  with w m t show ?thesis by (intro conjI)
qed



text \<open>
  C9. The three characters of week day are skipped and have no influence. When two inputs
  are, character by character as the reader yields them, the same first character, three
  characters each that may differ, and the same rest, \<open>UnmarshalJSON\<close> returns for the
  second what it returns for the first: the same receiver and no error on success, the
  same \<open>"invalid month"\<close> error, or \<open>"error parsing date %q: %s"\<close> with the same error of a
  step, in which only the raw input that the message quotes is that of the second input.
  The steps up to any one of them end on both inputs with the same error or with none,
  so the step that fails first is the same.
\<close>

theorem weekday_ignored:
  assumes "runes_of b = q # w @ rest" and "runes_of b' = q # w' @ rest"
    and "length w = 3" and "length w' = 3"
  shows "UnmarshalJSON d b' =
           (case UnmarshalJSON d b of
              (Some (ParsingDate raw e), d') \<Rightarrow> (Some (ParsingDate b' e), d')
            | res \<Rightarrow> res)
         \<and> (\<forall>k. fst (run_steps (take k steps) (NewReader b') vars0)
                  = fst (run_steps (take k steps) (NewReader b) vars0))"
proof
  show "UnmarshalJSON d b' =
           (case UnmarshalJSON d b of
              (Some (ParsingDate raw e), d') \<Rightarrow> (Some (ParsingDate b' e), d')
            | res \<Rightarrow> res)"
    by (simp add: UnmarshalJSON_weekday [OF assms(1,3)] UnmarshalJSON_weekday [OF assms(2,4)]
          split: prod.splits option.splits)
  show "\<forall>k. fst (run_steps (take k steps) (NewReader b') vars0)
                  = fst (run_steps (take k steps) (NewReader b) vars0)"
    using take_steps_runes_weekday [OF assms(4,3), of _ q rest]
    by (simp add: take_steps_runes assms(1,2))
qed

theorem weekday_ignored_witness:
  "runes_of (CHR 0x22 # ''dom, 18 nov 2012 23:00:00 GMT+0000'' @ [CHR 0x22])
     = 34 # [100, 111, 109] @ map of_char '', 18 nov 2012 23:00:00 GMT+0000'' @ [34]
   \<and> runes_of (CHR 0x22 # CHR ''s'' # CHR 0xC3 # CHR 0xA1 # CHR ''b''
                 # '', 18 nov 2012 23:00:00 GMT+0000'' @ [CHR 0x22])
     = 34 # [115, 225, 98] @ map of_char '', 18 nov 2012 23:00:00 GMT+0000'' @ [34]
   \<and> length [100, 111, 109 :: rune] = 3 \<and> length [115, 225, 98 :: rune] = 3
   \<and> UnmarshalJSON zero_Datetime
         (CHR 0x22 # CHR ''s'' # CHR 0xC3 # CHR 0xA1 # CHR ''b''
            # '', 18 nov 2012 23:00:00 GMT+0000'' @ [CHR 0x22])
     = (None, zero_Datetime\<lparr>Time := Date 2012 11 18 23 0 0 0 UTC\<rparr>)"
proof -
  let ?rest = "map of_char '', 18 nov 2012 23:00:00 GMT+0000'' @ [34]"
  let ?b = "CHR 0x22 # ''dom, 18 nov 2012 23:00:00 GMT+0000'' @ [CHR 0x22]"
  let ?b' = "CHR 0x22 # CHR ''s'' # CHR 0xC3 # CHR 0xA1 # CHR ''b''
               # '', 18 nov 2012 23:00:00 GMT+0000'' @ [CHR 0x22]"
  have h1: "runes_of ?b = 34 # [100, 111, 109] @ ?rest"
    by code_simp
  have h2: "runes_of ?b' = 34 # [115, 225, 98] @ ?rest"
    by code_simp
  have h3: "length [100, 111, 109 :: rune] = 3" "length [115, 225, 98 :: rune] = 3"
    by simp_all
  have r: "UnmarshalJSON zero_Datetime ?b
             = (None, zero_Datetime\<lparr>Time := Date 2012 11 18 23 0 0 0 UTC\<rparr>)"
    by code_simp
  have c: "UnmarshalJSON zero_Datetime ?b'
             = (None, zero_Datetime\<lparr>Time := Date 2012 11 18 23 0 0 0 UTC\<rparr>)"
    using weekday_ignored [OF h1 h2 h3, of zero_Datetime, THEN conjunct1]
    by (simp only: r prod.case option.case)
  from h1 h2 h3 c show ?thesis by (intro conjI)
qed

text \<open>
  C5. The steps before the time zone are the first sixteen: they end with the seconds
  and the white space after them. \<open>UnmarshalJSON\<close> returns no error exactly when these
  steps succeed, the characters that the reader has still to yield after them are
  \<open>GMT+0000\<close> and the closing quote (anything may follow the quote), and the month is in
  the table. So with any other characters in the place of \<open>GMT+0000\<close>, and with \<open>GMT+0000\<close>
  not followed by the quote, it returns an error.
\<close>

theorem timezone_literal:
  "fst (UnmarshalJSON d b) = None \<longleftrightarrow>
     (\<exists>r v rest. run_steps (take 16 steps) (NewReader b) vars0 = (None, r, v)
        \<and> pending r = map of_char (''GMT+0000'' @ [CHR 0x22]) @ rest
        \<and> months (var_mo v) \<noteq> None)"
proof -
  have "(\<exists>r' v'. run_steps steps (NewReader b) vars0 = (None, r', v') \<and> months (var_mo v') \<noteq> None)
     \<longleftrightarrow> (\<exists>r v rest. run_steps (take 16 steps) (NewReader b) vars0 = (None, r, v)
        \<and> pending r = map of_char (''GMT+0000'' @ [CHR 0x22]) @ rest
        \<and> months (var_mo v) \<noteq> None)"
  proof -
    obtain e r v where t: "run_steps (take 16 steps) (NewReader b) vars0 = (e, r, v)"
      by (cases "run_steps (take 16 steps) (NewReader b) vars0")
    have s: "run_steps steps (NewReader b) vars0 =
         (case e of Some err \<Rightarrow> (Some err, r, v)
          | None \<Rightarrow> run_steps [expectChars ''GMT+0000'', expectChars [CHR 0x22]] r v)"
      by (simp only: run_timezone [of "NewReader b" vars0] t prod.case split: option.splits)
    show ?thesis
    proof (cases e)
      case None
      with s have s': "run_steps steps (NewReader b) vars0
          = run_steps [expectChars ''GMT+0000'', expectChars [CHR 0x22]] r v"
        by (simp only: option.case)
      from t None have t': "run_steps (take 16 steps) (NewReader b) vars0 = (None, r, v)"
        by (simp only:)
      show ?thesis
      proof (rule iffI)
        assume "\<exists>r' v'. run_steps steps (NewReader b) vars0 = (None, r', v')
                  \<and> months (var_mo v') \<noteq> None"
        then obtain r' v' where
          a: "run_steps [expectChars ''GMT+0000'', expectChars [CHR 0x22]] r v = (None, r', v')"
          and m: "months (var_mo v') \<noteq> None"
          unfolding s' by blast
        from a have "\<exists>r'. run_steps [expectChars ''GMT+0000'', expectChars [CHR 0x22]] r v
                       = (None, r', v')" ..
        from timezone_steps [of r v v', THEN iffD1, OF this] obtain rest where
          "v' = v" "pending r = map of_char (''GMT+0000'' @ [CHR 0x22]) @ rest" by blast
        with t' m show "\<exists>r v rest. run_steps (take 16 steps) (NewReader b) vars0 = (None, r, v)
            \<and> pending r = map of_char (''GMT+0000'' @ [CHR 0x22]) @ rest
            \<and> months (var_mo v) \<noteq> None"
          by blast
      next
        assume "\<exists>r v rest. run_steps (take 16 steps) (NewReader b) vars0 = (None, r, v)
            \<and> pending r = map of_char (''GMT+0000'' @ [CHR 0x22]) @ rest
            \<and> months (var_mo v) \<noteq> None"
        then obtain r2 v2 rest where
          b: "run_steps (take 16 steps) (NewReader b) vars0 = (None, r2, v2)"
          and p: "pending r2 = map of_char (''GMT+0000'' @ [CHR 0x22]) @ rest"
          and m: "months (var_mo v2) \<noteq> None"
          by blast
        from b t' have "r2 = r" "v2 = v" by simp_all
        with p m have p': "v = v \<and> (\<exists>rest. pending r = map of_char (''GMT+0000'' @ [CHR 0x22]) @ rest)"
          and m': "months (var_mo v) \<noteq> None" by blast+
        from timezone_steps [of r v v, THEN iffD2, OF p'] obtain r' where
          "run_steps [expectChars ''GMT+0000'', expectChars [CHR 0x22]] r v = (None, r', v)" ..
        with m' show "\<exists>r' v'. run_steps steps (NewReader b) vars0 = (None, r', v')
                  \<and> months (var_mo v') \<noteq> None"
          unfolding s' by blast
      qed
    next
      case (Some err)
      with s have "run_steps steps (NewReader b) vars0 = (Some err, r, v)"
        by (simp only: option.case)
      moreover from t Some have "run_steps (take 16 steps) (NewReader b) vars0 = (Some err, r, v)"
        by (simp only:)
      ultimately show ?thesis by simp
    qed
  qed
  then show ?thesis by (simp only: UnmarshalJSON_None)
qed

theorem timezone_literal_witness:
  "fst (UnmarshalJSON zero_Datetime
          (CHR 0x22 # ''dom, 18 nov 2012 23:00:00 GMT+0100'' @ [CHR 0x22])) \<noteq> None"
proof
  let ?b = "CHR 0x22 # ''dom, 18 nov 2012 23:00:00 GMT+0100'' @ [CHR 0x22]"
  let ?r = "\<lparr>rbuf = ?b, rpos = 27, lastRuneSize = - 1\<rparr>"
  assume "fst (UnmarshalJSON zero_Datetime ?b) = None"
  from timezone_literal [THEN iffD1, OF this] obtain r v rest where
    t: "run_steps (take 16 steps) (NewReader ?b) vars0 = (None, r, v)"
    and p: "pending r = map of_char (''GMT+0000'' @ [CHR 0x22]) @ rest"
    by blast
  have "fst (snd (run_steps (take 16 steps) (NewReader ?b) vars0)) = ?r"
    by code_simp
  with t have r: "r = ?r" by simp
  have "pending ?r = map of_char (''GMT+0100'' @ [CHR 0x22])"
    by code_simp
  with p r show False by simp
qed







end
